theory Spec2Isabelle
  imports Main "HOL-Library.AList" "HOL-Library.Multiset"
begin

section \<open>File ownership over a repository history (parse\_stp\_history.py)\<close>

text \<open>
  The script walks the commits of a repository, earliest first, and keeps for every file
  of the tree the set of people who touched it and the date it was created on. At the end
  it labels every file relative to one contributor, Vijay Ganesh.

  The repository itself (pygit2) is outside the script: the model takes the walk as a
  list of commits, each paired with the deltas of its diff against the previous commit.
\<close>

subsection \<open>Strings\<close>

text \<open>
  Author names are \<open>string\<close>s. Only the ASCII letters are cased in the model;
  Python's casing tables for characters outside ASCII are not modelled.
\<close>

definition ascii_uppercase :: string where
  "ascii_uppercase = ''ABCDEFGHIJKLMNOPQRSTUVWXYZ''"

definition ascii_lowercase :: string where
  "ascii_lowercase = ''abcdefghijklmnopqrstuvwxyz''"

definition is_upper :: "char \<Rightarrow> bool" where
  "is_upper c = (c \<in> set ascii_uppercase)"

definition is_lower :: "char \<Rightarrow> bool" where
  "is_lower c = (c \<in> set ascii_lowercase)"

definition lower_char :: "char \<Rightarrow> char" where
  "lower_char c =
     (case map_of (zip ascii_uppercase ascii_lowercase) c of None \<Rightarrow> c | Some l \<Rightarrow> l)"

definition upper_char :: "char \<Rightarrow> char" where
  "upper_char c =
     (case map_of (zip ascii_lowercase ascii_uppercase) c of None \<Rightarrow> c | Some u \<Rightarrow> u)"

text \<open>\<open>str.lower()\<close>.\<close>

definition lower :: "string \<Rightarrow> string" where
  "lower s = map lower_char s"

text \<open>
  \<open>str.title()\<close>: a cased character is upper-cased when the character before it is
  not cased (or there is none), and lower-cased otherwise.
\<close>

fun title_from :: "bool \<Rightarrow> string \<Rightarrow> string" where
  "title_from previous_is_cased [] = []"
| "title_from previous_is_cased (c # cs) =
     (if previous_is_cased then lower_char c else upper_char c)
       # title_from (is_upper c \<or> is_lower c) cs"

definition title :: "string \<Rightarrow> string" where
  "title s = title_from False s"

text \<open>\<open>sub in s\<close> on strings: \<open>sub\<close> occurs in \<open>s\<close> as a contiguous run.\<close>

fun starts_with :: "string \<Rightarrow> string \<Rightarrow> bool" where
  "starts_with s [] = True"
| "starts_with [] (p # ps) = False"
| "starts_with (c # cs) (p # ps) = (c = p \<and> starts_with cs ps)"

fun str_in :: "string \<Rightarrow> string \<Rightarrow> bool" where
  "str_in sub [] = (sub = [])"
| "str_in sub (c # cs) = (starts_with (c # cs) sub \<or> str_in sub cs)"

subsection \<open>Contributor names\<close>

definition VIJAY_NAME :: string where
  "VIJAY_NAME = ''Vijay Ganesh''"

text \<open>
  \<open>transform_name\<close>: a name with "ganesh" in it, in any case, stands for Vijay Ganesh and
  David L. Dill together; any other name stands for itself, title-cased.
\<close>

definition transform_name :: "string \<Rightarrow> string set" where
  "transform_name name =
     (if str_in (lower ''Ganesh'') (lower name)
      then {VIJAY_NAME, ''David L. Dill''}
      else {title name})"

subsection \<open>Deltas, commits and dates\<close>

datatype delta_status =
    GIT_DELTA_UNMODIFIED
  | GIT_DELTA_ADDED
  | GIT_DELTA_DELETED
  | GIT_DELTA_MODIFIED
  | GIT_DELTA_RENAMED
  | GIT_DELTA_COPIED
  | GIT_DELTA_IGNORED
  | GIT_DELTA_UNTRACKED
  | GIT_DELTA_TYPECHANGE
  | GIT_DELTA_UNREADABLE
  | GIT_DELTA_CONFLICTED

text \<open>\<open>get_git_type\<close>: the name of a delta status.\<close>

fun get_git_type :: "delta_status \<Rightarrow> string" where
  "get_git_type GIT_DELTA_ADDED = ''GIT_DELTA_ADDED''"
| "get_git_type GIT_DELTA_CONFLICTED = ''GIT_DELTA_CONFLICTED''"
| "get_git_type GIT_DELTA_COPIED = ''GIT_DELTA_COPIED''"
| "get_git_type GIT_DELTA_DELETED = ''GIT_DELTA_DELETED''"
| "get_git_type GIT_DELTA_IGNORED = ''GIT_DELTA_IGNORED''"
| "get_git_type GIT_DELTA_MODIFIED = ''GIT_DELTA_MODIFIED''"
| "get_git_type GIT_DELTA_RENAMED = ''GIT_DELTA_RENAMED''"
| "get_git_type GIT_DELTA_TYPECHANGE = ''GIT_DELTA_TYPECHANGE''"
| "get_git_type GIT_DELTA_UNMODIFIED = ''GIT_DELTA_UNMODIFIED''"
| "get_git_type GIT_DELTA_UNREADABLE = ''GIT_DELTA_UNREADABLE''"
| "get_git_type GIT_DELTA_UNTRACKED = ''GIT_DELTA_UNTRACKED''"

text \<open>A delta: \<open>delta.old_file.path\<close>, \<open>delta.new_file.path\<close>, \<open>delta.status\<close>.\<close>

record delta =
  old_file_path :: string
  new_file_path :: string
  status :: delta_status

text \<open>
  What the walk reads of a commit: \<open>commit.author.name\<close>, \<open>commit.author.time\<close>
  (seconds since the epoch) and \<open>commit.author.offset\<close> (minutes east of UTC).
\<close>

record commit =
  author_name :: string
  author_time :: int
  author_offset :: int

text \<open>
  An aware \<open>datetime\<close>: the instant, in seconds since the epoch, and the offset of its
  time zone in minutes. Two aware datetimes are ordered by their instants.
\<close>

record datetime =
  instant :: int
  utcoffset :: int

definition dt_less :: "datetime \<Rightarrow> datetime \<Rightarrow> bool" where
  "dt_less a b = (instant a < instant b)"

datatype error =
    AssertionError
  | KeyError
  | DateError
  | AttributeError
  | RuntimeError string

text \<open>
  Lines 133 and 134: \<open>timezone(timedelta(minutes=offset))\<close> raises unless the offset is
  strictly within a day, and \<open>datetime.fromtimestamp\<close> raises unless the date, in UTC
  and in the zone, lies in the years 1 to 9999. Both failures are \<open>DateError\<close> here
  (Python raises ValueError or OverflowError).
\<close>

definition MIN_INSTANT :: int where
  "MIN_INSTANT = - 62135596800"

definition MAX_INSTANT :: int where
  "MAX_INSTANT = 253402300799"

definition commit_time :: "commit \<Rightarrow> error + datetime" where
  "commit_time c =
     (if \<not> (- 1440 < author_offset c \<and> author_offset c < 1440) then Inl DateError
      else if author_time c < MIN_INSTANT \<or> MAX_INSTANT < author_time c then Inl DateError
      else if author_time c + 60 * author_offset c < MIN_INSTANT
              \<or> MAX_INSTANT < author_time c + 60 * author_offset c then Inl DateError
      else Inr \<lparr>instant = author_time c, utcoffset = author_offset c\<rparr>)"

subsection \<open>The state of the walk\<close>

text \<open>
  The two dictionaries are association lists in insertion order, which is the order
  Python iterates a \<open>dict\<close> in: \<open>d[k] = v\<close> is \<open>AList.update\<close> (in place for a key
  that is there, at the end otherwise), \<open>del d[k]\<close> is \<open>AList.delete\<close>, \<open>k in d\<close>
  is membership in the keys and \<open>d[k]\<close> is \<open>map_of\<close>, KeyError when it is None.

  Every set stored in \<open>owners\<close> is referenced from one key only (a rename deletes the
  old key in the same step), so the in-place \<open>|=\<close> on a stored set changes one entry.
\<close>

record state =
  owners :: "(string \<times> string set) list"
  created_on :: "(string \<times> datetime) list"
  all_contributors :: "string set"
  last_vijay_date :: "datetime option"
  first :: bool

definition init_state :: state where
  "init_state = \<lparr>owners = [], created_on = [], all_contributors = {},
                 last_vijay_date = None, first = True\<rparr>"

text \<open>The contributor of a delta (lines 120 to 130).\<close>

definition contributor_of :: "commit \<Rightarrow> state \<Rightarrow> string set" where
  "contributor_of c s =
     (if first s then transform_name VIJAY_NAME else transform_name (author_name c))"

text \<open>Lines 110 to 159: a delta that adds or changes a file, or any delta of the first commit.\<close>

definition add_or_modify :: "commit \<Rightarrow> state \<Rightarrow> delta \<Rightarrow> error + state" where
  "add_or_modify c s d =
     (if old_file_path d \<noteq> new_file_path d then Inl AssertionError
      else if first s \<and> status d \<noteq> GIT_DELTA_ADDED then Inl AssertionError
      else
        (let contributor = contributor_of c s in
         case commit_time c of
           Inl e \<Rightarrow> Inl e
         | Inr ctime \<Rightarrow>
            (let s1 = (if VIJAY_NAME \<in> contributor
                       then s\<lparr>last_vijay_date := Some ctime\<rparr> else s) in
             if status d = GIT_DELTA_ADDED then
               (if new_file_path d \<in> fst ` set (owners s1) then Inl AssertionError
                else Inr (s1\<lparr>owners := AList.update (new_file_path d) contributor (owners s1),
                             created_on := AList.update (new_file_path d) ctime (created_on s1),
                             all_contributors := all_contributors s1 \<union> contributor\<rparr>))
             else
               (case map_of (owners s1) (new_file_path d) of
                  None \<Rightarrow> Inl AssertionError
                | Some old_owners \<Rightarrow>
                    Inr (s1\<lparr>owners := AList.update (new_file_path d)
                                         (old_owners \<union> contributor) (owners s1),
                            all_contributors := all_contributors s1 \<union> contributor\<rparr>)))))"

text \<open>Lines 164 to 174: the first half of a rename.\<close>

definition rename_in :: "state \<Rightarrow> delta \<Rightarrow> error + state" where
  "rename_in s d =
     (if new_file_path d \<in> fst ` set (owners s) then Inl AssertionError
      else case map_of (owners s) (old_file_path d) of
        None \<Rightarrow> Inl KeyError
      | Some os \<Rightarrow>
         (case map_of (created_on s) (old_file_path d) of
            None \<Rightarrow> Inl KeyError
          | Some t \<Rightarrow>
              Inr (s\<lparr>owners := AList.update (new_file_path d) os (owners s),
                     created_on := AList.update (new_file_path d) t (created_on s)\<rparr>)))"

text \<open>Lines 176 to 180: the old path leaves both dictionaries.\<close>

definition delete_old :: "state \<Rightarrow> delta \<Rightarrow> error + state" where
  "delete_old s d =
     (if old_file_path d \<notin> fst ` set (owners s) then Inl KeyError
      else if old_file_path d \<notin> fst ` set (created_on s) then Inl KeyError
      else Inr (s\<lparr>owners := AList.delete (old_file_path d) (owners s),
                  created_on := AList.delete (old_file_path d) (created_on s)\<rparr>))"

text \<open>Lines 161 to 180.\<close>

definition rename_or_delete :: "state \<Rightarrow> delta \<Rightarrow> error + state" where
  "rename_or_delete s d =
     (if status d = GIT_DELTA_RENAMED then
        (case rename_in s d of Inl e \<Rightarrow> Inl e | Inr s1 \<Rightarrow> delete_old s1 d)
      else delete_old s d)"

text \<open>The message of line 185.\<close>

definition unhandled :: "delta_status \<Rightarrow> string" where
  "unhandled st = ''You haven'' @ [CHR 0x27] @ ''t handled: '' @ get_git_type st"

text \<open>Lines 108 to 186: the body of the loop over the deltas of a commit.\<close>

definition process_delta :: "commit \<Rightarrow> state \<Rightarrow> delta \<Rightarrow> error + state" where
  "process_delta c s d =
     (if first s \<or> status d \<in> {GIT_DELTA_ADDED, GIT_DELTA_MODIFIED} then add_or_modify c s d
      else if status d \<in> {GIT_DELTA_RENAMED, GIT_DELTA_DELETED} then rename_or_delete s d
      else Inl (RuntimeError (unhandled (status d))))"

text \<open>The loop over the deltas of one commit; the first failure ends the run.\<close>

fun process_deltas :: "commit \<Rightarrow> state \<Rightarrow> delta list \<Rightarrow> error + state" where
  "process_deltas c s [] = Inr s"
| "process_deltas c s (d # ds) =
     (case process_delta c s d of Inl e \<Rightarrow> Inl e | Inr s' \<Rightarrow> process_deltas c s' ds)"

text \<open>Lines 96 to 189: the loop over the commits; after a commit, \<open>first\<close> is False.\<close>

fun walk :: "state \<Rightarrow> (commit \<times> delta list) list \<Rightarrow> error + state" where
  "walk s [] = Inr s"
| "walk s ((c, ds) # cs) =
     (case process_deltas c s ds of
        Inl e \<Rightarrow> Inl e
      | Inr s' \<Rightarrow> walk (s'\<lparr>first := False\<rparr>) cs)"

subsection \<open>The report\<close>

text \<open>Lines 203 to 223: the label of one file.\<close>

definition ownership :: "string set \<Rightarrow> datetime \<Rightarrow> datetime \<Rightarrow> string" where
  "ownership file_owners added_date vijay_date =
     (let vijay_set = transform_name VIJAY_NAME;
          before_last_date = dt_less added_date vijay_date
      in if file_owners = vijay_set then ''Complete''
         else if vijay_set \<inter> file_owners \<noteq> {} then ''Partial''
         else if before_last_date then ''Inherited''
         else ''None'')"

text \<open>
  Lines 198 to 230: one line per file, in the order of the dictionary. \<open>path_exists\<close>
  stands for \<open>os.path.exists\<close> on the working tree. A line is the label, the file and
  the date it was added on; lines printed before a failure are not kept.
\<close>

fun report :: "(string \<Rightarrow> bool) \<Rightarrow> (string \<times> datetime) list \<Rightarrow> datetime
    \<Rightarrow> (string \<times> string set) list \<Rightarrow> error + (string \<times> string \<times> datetime) list" where
  "report path_exists created vijay_date [] = Inr []"
| "report path_exists created vijay_date ((fname, file_owners) # rest) =
     (if \<not> path_exists fname then Inl AssertionError
      else case map_of created fname of
        None \<Rightarrow> Inl KeyError
      | Some added_date \<Rightarrow>
         (case report path_exists created vijay_date rest of
            Inl e \<Rightarrow> Inl e
          | Inr ls \<Rightarrow> Inr ((ownership file_owners added_date vijay_date, fname, added_date) # ls)))"

text \<open>
  \<open>calculate_stats\<close>: the walk, the date of Vijay's last commit (AttributeError on
  \<open>None.strftime\<close> when there is none), then the report.
\<close>

definition calculate_stats :: "(string \<Rightarrow> bool) \<Rightarrow> (commit \<times> delta list) list
    \<Rightarrow> error + (datetime \<times> (string \<times> string \<times> datetime) list)" where
  "calculate_stats path_exists cs =
     (case walk init_state cs of
        Inl e \<Rightarrow> Inl e
      | Inr s \<Rightarrow>
         (case last_vijay_date s of
            None \<Rightarrow> Inl AttributeError
          | Some vijay_date \<Rightarrow>
             (case report path_exists (created_on s) vijay_date (owners s) of
                Inl e \<Rightarrow> Inl e
              | Inr ls \<Rightarrow> Inr (vijay_date, ls))))"

subsection \<open>Notions used by the properties\<close>

text \<open>
  The two dictionaries go in lock-step: the same keys in the same order, each key once.
\<close>

definition lockstep :: "state \<Rightarrow> bool" where
  "lockstep s = (map fst (owners s) = map fst (created_on s) \<and> distinct (map fst (owners s)))"

text \<open>The deltas of a walk, each with its commit, in the order the loops meet them.\<close>

fun records :: "(commit \<times> delta list) list \<Rightarrow> (commit \<times> delta) list" where
  "records [] = []"
| "records ((c, ds) # cs) = map (Pair c) ds @ records cs"

text \<open>
  The name under which a file is known after a delta: a rename of the file moves it to the
  new path. A file survives a run of deltas when none of them deletes it under the name it
  has at that point.
\<close>

definition follow :: "string \<Rightarrow> delta \<Rightarrow> string" where
  "follow p d =
     (if status d = GIT_DELTA_RENAMED \<and> old_file_path d = p then new_file_path d else p)"

fun follow_all :: "string \<Rightarrow> delta list \<Rightarrow> string" where
  "follow_all p [] = p"
| "follow_all p (d # ds) = follow_all (follow p d) ds"

fun survives :: "string \<Rightarrow> delta list \<Rightarrow> bool" where
  "survives p [] = True"
| "survives p (d # ds) =
     (\<not> (status d = GIT_DELTA_DELETED \<and> old_file_path d = p) \<and> survives (follow p d) ds)"

text \<open>
  The contributors recorded for a path by the deltas of a walk, in the order met; the
  flag says whether the walk starts at the first commit.
\<close>

fun recorded_for :: "string \<Rightarrow> bool \<Rightarrow> (commit \<times> delta list) list \<Rightarrow> string set list" where
  "recorded_for p is_first [] = []"
| "recorded_for p is_first ((c, ds) # cs) =
     map (\<lambda>d. if is_first then transform_name VIJAY_NAME else transform_name (author_name c))
       (filter (\<lambda>d. new_file_path d = p) ds)
     @ recorded_for p False cs"

text \<open>
  The owners of a path after a run of contributor sets was recorded for it: their union,
  taken in the order met, with the owners it had before, if it had any.
\<close>

fun recorded_union :: "string set option \<Rightarrow> string set list \<Rightarrow> string set option" where
  "recorded_union None [] = None"
| "recorded_union None (i # ids) = Some (foldl (\<union>) i ids)"
| "recorded_union (Some os) ids = Some (foldl (\<union>) os ids)"

section \<open>Names\<close>






lemma vijay_set: "transform_name VIJAY_NAME = {''Vijay Ganesh'', ''David L. Dill''}"
  by (simp add: transform_name_def VIJAY_NAME_def lower_def lower_char_def
      ascii_uppercase_def ascii_lowercase_def)

lemma singleton_neq_pair: "a \<noteq> b \<Longrightarrow> {t} \<noteq> {a, b}"
  by auto



section \<open>The step\<close>

lemma process_delta_first [simp]: "process_delta c s d = Inr s' \<Longrightarrow> first s' = first s"
  by (auto simp: process_delta_def add_or_modify_def rename_or_delete_def rename_in_def
      delete_old_def Let_def split: if_splits sum.splits option.splits)

lemma process_deltas_first: "process_deltas c s ds = Inr s' \<Longrightarrow> first s' = first s"
  by (induction ds arbitrary: s) (auto split: sum.splits)

lemma process_deltas_append:
  "process_deltas c s (xs @ ys) =
     (case process_deltas c s xs of Inl e \<Rightarrow> Inl e | Inr s' \<Rightarrow> process_deltas c s' ys)"
  by (induction xs arbitrary: s) (auto split: sum.splits)

lemma walk_append:
  "walk s (xs @ ys) = (case walk s xs of Inl e \<Rightarrow> Inl e | Inr s' \<Rightarrow> walk s' ys)"
  by (induction s xs rule: walk.induct) (auto split: sum.splits)

lemma keys_update_new:
  "k \<notin> fst ` set al \<Longrightarrow> map fst (AList.update k v al) = map fst al @ [k]"
  by (simp add: update_keys)

lemma keys_update_old:
  "k \<in> fst ` set al \<Longrightarrow> map fst (AList.update k v al) = map fst al"
  by (simp add: update_keys)

lemma map_of_None_iff: "map_of al k = None \<longleftrightarrow> k \<notin> fst ` set al"
  by (simp add: map_of_eq_None_iff)

lemma lockstep_keys: "lockstep s \<Longrightarrow> fst ` set (created_on s) = fst ` set (owners s)"
  unfolding lockstep_def by (metis set_map)

lemma add_or_modify_lockstep:
  assumes "lockstep s" "add_or_modify c s d = Inr s'"
  shows "lockstep s'"
proof -
  have k: "fst ` set (created_on s) = fst ` set (owners s)" using assms(1) by (rule lockstep_keys)
  show ?thesis
    using assms k unfolding lockstep_def add_or_modify_def Let_def
    by (auto simp: update_keys map_of_None_iff[symmetric] split: if_splits sum.splits option.splits)
qed

lemma rename_in_lockstep:
  assumes "lockstep s" "rename_in s d = Inr s'"
  shows "lockstep s'"
proof -
  have k: "fst ` set (created_on s) = fst ` set (owners s)" using assms(1) by (rule lockstep_keys)
  show ?thesis
    using assms k unfolding lockstep_def rename_in_def
    by (auto simp: update_keys split: if_splits sum.splits option.splits)
qed

lemma delete_old_lockstep:
  assumes "lockstep s" "delete_old s d = Inr s'"
  shows "lockstep s'"
  using assms unfolding lockstep_def delete_old_def
  by (auto simp: delete_keys distinct_removeAll split: if_splits)

lemma process_delta_lockstep:
  assumes "lockstep s" "process_delta c s d = Inr s'"
  shows "lockstep s'"
  using assms unfolding process_delta_def rename_or_delete_def
  by (auto split: if_splits sum.splits
      dest: add_or_modify_lockstep rename_in_lockstep delete_old_lockstep)

lemma process_deltas_lockstep:
  "lockstep s \<Longrightarrow> process_deltas c s ds = Inr s' \<Longrightarrow> lockstep s'"
  by (induction ds arbitrary: s) (auto split: sum.splits dest: process_delta_lockstep)

lemma lockstep_first [simp]: "lockstep (s\<lparr>first := b\<rparr>) = lockstep s"
  by (simp add: lockstep_def)

lemma walk_lockstep: "lockstep s \<Longrightarrow> walk s cs = Inr s' \<Longrightarrow> lockstep s'"
  by (induction s cs rule: walk.induct) (auto split: sum.splits dest: process_deltas_lockstep)

lemma lockstep_init: "lockstep init_state"
  by (simp add: lockstep_def init_state_def)

section \<open>The two dictionaries\<close>

text \<open>
  C3: at every point of a walk that has not failed (some commits done, then some of the
  deltas of the next one), \<open>owners\<close> and \<open>created_on\<close> have the same keys, and each
  key occurs once in each of them.
\<close>

theorem owners_created_on_lockstep:
  assumes "walk init_state cs = Inr s" and "process_deltas c s ds = Inr s'"
  shows "fst ` set (owners s') = fst ` set (created_on s')
         \<and> distinct (map fst (owners s')) \<and> distinct (map fst (created_on s'))
         \<and> map fst (owners s') = map fst (created_on s')"
proof -
  have "lockstep s" using lockstep_init assms(1) by (rule walk_lockstep)
  then have l: "lockstep s'" using assms(2) by (rule process_deltas_lockstep)
  then have k: "fst ` set (created_on s') = fst ` set (owners s')" by (rule lockstep_keys)
  from l have eq: "map fst (owners s') = map fst (created_on s')"
    and d: "distinct (map fst (owners s'))" unfolding lockstep_def by blast+
  from d have d2: "distinct (map fst (created_on s'))" unfolding eq .
  from k d d2 eq show ?thesis by (simp only: simp_thms)
qed

lemmas eval_defs = init_state_def process_delta_def add_or_modify_def contributor_of_def
  commit_time_def MIN_INSTANT_def MAX_INSTANT_def rename_or_delete_def rename_in_def
  delete_old_def transform_name_def lower_def lower_char_def upper_char_def title_def
  is_upper_def is_lower_def ascii_uppercase_def ascii_lowercase_def VIJAY_NAME_def Let_def

theorem owners_created_on_lockstep_witness:
  "walk init_state
     [(\<lparr>author_name = ''someone'', author_time = 100, author_offset = 60\<rparr>,
       [\<lparr>old_file_path = ''c.txt'', new_file_path = ''c.txt'', status = GIT_DELTA_ADDED\<rparr>,
        \<lparr>old_file_path = ''e.txt'', new_file_path = ''e.txt'', status = GIT_DELTA_ADDED\<rparr>])]
     = Inr \<lparr>owners = [(''c.txt'', {''Vijay Ganesh'', ''David L. Dill''}),
                       (''e.txt'', {''Vijay Ganesh'', ''David L. Dill''})],
            created_on = [(''c.txt'', \<lparr>instant = 100, utcoffset = 60\<rparr>),
                          (''e.txt'', \<lparr>instant = 100, utcoffset = 60\<rparr>)],
            all_contributors = {''Vijay Ganesh'', ''David L. Dill''},
            last_vijay_date = Some \<lparr>instant = 100, utcoffset = 60\<rparr>, first = False\<rparr>
   \<and> process_deltas \<lparr>author_name = ''bob'', author_time = 200, author_offset = 0\<rparr>
       \<lparr>owners = [(''c.txt'', {''Vijay Ganesh'', ''David L. Dill''}),
                  (''e.txt'', {''Vijay Ganesh'', ''David L. Dill''})],
        created_on = [(''c.txt'', \<lparr>instant = 100, utcoffset = 60\<rparr>),
                      (''e.txt'', \<lparr>instant = 100, utcoffset = 60\<rparr>)],
        all_contributors = {''Vijay Ganesh'', ''David L. Dill''},
        last_vijay_date = Some \<lparr>instant = 100, utcoffset = 60\<rparr>, first = False\<rparr>
       [\<lparr>old_file_path = ''c.txt'', new_file_path = ''d.txt'', status = GIT_DELTA_RENAMED\<rparr>,
        \<lparr>old_file_path = ''e.txt'', new_file_path = ''e.txt'', status = GIT_DELTA_MODIFIED\<rparr>]
     = Inr \<lparr>owners = [(''e.txt'', {''Vijay Ganesh'', ''David L. Dill'', ''Bob''}),
                       (''d.txt'', {''Vijay Ganesh'', ''David L. Dill''})],
            created_on = [(''e.txt'', \<lparr>instant = 100, utcoffset = 60\<rparr>),
                          (''d.txt'', \<lparr>instant = 100, utcoffset = 60\<rparr>)],
            all_contributors = {''Vijay Ganesh'', ''David L. Dill'', ''Bob''},
            last_vijay_date = Some \<lparr>instant = 100, utcoffset = 60\<rparr>, first = False\<rparr>
   \<and> fst ` set [(''e.txt'', {''Vijay Ganesh'', ''David L. Dill'', ''Bob''}),
                 (''d.txt'', {''Vijay Ganesh'', ''David L. Dill''})]
       = fst ` set [(''e.txt'', \<lparr>instant = 100, utcoffset = 60\<rparr>),
                    (''d.txt'', \<lparr>instant = (100::int), utcoffset = (60::int)\<rparr>)]"
proof -
  let ?c1 = "\<lparr>author_name = ''someone'', author_time = 100, author_offset = 60\<rparr>"
  let ?c2 = "\<lparr>author_name = ''bob'', author_time = 200, author_offset = 0\<rparr>"
  let ?ds1 = "[\<lparr>old_file_path = ''c.txt'', new_file_path = ''c.txt'', status = GIT_DELTA_ADDED\<rparr>,
        \<lparr>old_file_path = ''e.txt'', new_file_path = ''e.txt'', status = GIT_DELTA_ADDED\<rparr>]"
  let ?ds2 = "[\<lparr>old_file_path = ''c.txt'', new_file_path = ''d.txt'', status = GIT_DELTA_RENAMED\<rparr>,
        \<lparr>old_file_path = ''e.txt'', new_file_path = ''e.txt'', status = GIT_DELTA_MODIFIED\<rparr>]"
  let ?s1 = "\<lparr>owners = [(''c.txt'', {''Vijay Ganesh'', ''David L. Dill''}),
                       (''e.txt'', {''Vijay Ganesh'', ''David L. Dill''})],
            created_on = [(''c.txt'', \<lparr>instant = 100, utcoffset = 60\<rparr>),
                          (''e.txt'', \<lparr>instant = 100, utcoffset = 60\<rparr>)],
            all_contributors = {''Vijay Ganesh'', ''David L. Dill''},
            last_vijay_date = Some \<lparr>instant = 100, utcoffset = 60\<rparr>, first = False\<rparr>"
  let ?s2 = "\<lparr>owners = [(''e.txt'', {''Vijay Ganesh'', ''David L. Dill'', ''Bob''}),
                       (''d.txt'', {''Vijay Ganesh'', ''David L. Dill''})],
            created_on = [(''e.txt'', \<lparr>instant = 100, utcoffset = 60\<rparr>),
                          (''d.txt'', \<lparr>instant = 100, utcoffset = 60\<rparr>)],
            all_contributors = {''Vijay Ganesh'', ''David L. Dill'', ''Bob''},
            last_vijay_date = Some \<lparr>instant = 100, utcoffset = 60\<rparr>, first = False\<rparr>"
  have h1: "walk init_state [(?c1, ?ds1)] = Inr ?s1"
    by (simp add: eval_defs)
  have h2: "process_deltas ?c2 ?s1 ?ds2 = Inr ?s2"
    by (simp add: eval_defs insert_commute)
  from owners_created_on_lockstep [OF h1 h2]
  have "fst ` set (owners ?s2) = fst ` set (created_on ?s2)" by (rule conjunct1)
  with h1 h2 show ?thesis by simp
qed

section \<open>Failures\<close>

text \<open>A delta that fails ends the whole computation with its error.\<close>

lemma process_deltas_failure:
  "process_deltas c s0 ds1 = Inr s \<Longrightarrow> process_delta c s d = Inl e
     \<Longrightarrow> process_deltas c s0 (ds1 @ d # ds2) = Inl e"
  by (simp add: process_deltas_append)

lemma walk_failure:
  assumes "walk s00 pre = Inr s0" and "process_deltas c s0 ds1 = Inr s"
    and "process_delta c s d = Inl e"
  shows "walk s00 (pre @ (c, ds1 @ d # ds2) # cs) = Inl e"
  using assms by (simp add: walk_append process_deltas_failure)

lemma calculate_stats_failure:
  assumes "walk init_state pre = Inr s0" and "process_deltas c s0 ds1 = Inr s"
    and "process_delta c s d = Inl e"
  shows "calculate_stats path_exists (pre @ (c, ds1 @ d # ds2) # cs) = Inl e"
  unfolding calculate_stats_def using walk_failure [OF assms] by simp

lemma add_or_modify_first_not_added:
  "first s \<Longrightarrow> status d \<noteq> GIT_DELTA_ADDED \<Longrightarrow> add_or_modify c s d = Inl AssertionError"
  by (simp add: add_or_modify_def)

lemma add_or_modify_added_live:
  "status d = GIT_DELTA_ADDED \<Longrightarrow> new_file_path d \<in> fst ` set (owners s)
     \<Longrightarrow> \<exists>e. add_or_modify c s d = Inl e"
  by (auto simp: add_or_modify_def Let_def split: sum.splits)

lemma add_or_modify_modified_not_live:
  "status d = GIT_DELTA_MODIFIED \<Longrightarrow> new_file_path d \<notin> fst ` set (owners s)
     \<Longrightarrow> \<exists>e. add_or_modify c s d = Inl e"
  by (auto simp: add_or_modify_def Let_def map_of_None_iff [symmetric] split: sum.splits)

lemma rename_in_new_live:
  "new_file_path d \<in> fst ` set (owners s) \<Longrightarrow> rename_in s d = Inl AssertionError"
  by (simp add: rename_in_def)

lemma rename_in_old_not_live:
  "new_file_path d \<notin> fst ` set (owners s) \<Longrightarrow> old_file_path d \<notin> fst ` set (owners s)
     \<Longrightarrow> rename_in s d = Inl KeyError"
  by (simp add: rename_in_def map_of_None_iff [symmetric])

lemma rename_or_delete_renamed_fails:
  assumes "status d = GIT_DELTA_RENAMED"
    and "new_file_path d \<in> fst ` set (owners s) \<or> old_file_path d \<notin> fst ` set (owners s)"
  shows "\<exists>e. rename_or_delete s d = Inl e"
proof (cases "new_file_path d \<in> fst ` set (owners s)")
  case True
  then show ?thesis using assms(1) by (simp add: rename_or_delete_def rename_in_new_live)
next
  case False
  with assms(2) have "old_file_path d \<notin> fst ` set (owners s)" by blast
  with False show ?thesis
    using assms(1) by (simp add: rename_or_delete_def rename_in_old_not_live)
qed

lemma rename_or_delete_deleted_fails:
  "status d = GIT_DELTA_DELETED \<Longrightarrow> old_file_path d \<notin> fst ` set (owners s)
     \<Longrightarrow> rename_or_delete s d = Inl KeyError"
  by (simp add: rename_or_delete_def delete_old_def)

lemma process_delta_add_or_modify:
  "first s \<or> status d = GIT_DELTA_ADDED \<or> status d = GIT_DELTA_MODIFIED
     \<Longrightarrow> process_delta c s d = add_or_modify c s d"
  unfolding process_delta_def by auto

lemma process_delta_rename_or_delete:
  "\<not> first s \<Longrightarrow> status d = GIT_DELTA_RENAMED \<or> status d = GIT_DELTA_DELETED
     \<Longrightarrow> process_delta c s d = rename_or_delete s d"
  unfolding process_delta_def by auto

lemma process_delta_violation:
  assumes "(status d = GIT_DELTA_ADDED \<and> new_file_path d \<in> fst ` set (owners s))
         \<or> (status d = GIT_DELTA_MODIFIED \<and> new_file_path d \<notin> fst ` set (owners s))
         \<or> (status d = GIT_DELTA_RENAMED
              \<and> (new_file_path d \<in> fst ` set (owners s) \<or> old_file_path d \<notin> fst ` set (owners s)))
         \<or> (status d = GIT_DELTA_DELETED \<and> old_file_path d \<notin> fst ` set (owners s))"
  shows "\<exists>e. process_delta c s d = Inl e"
proof -
  note am = process_delta_add_or_modify [of s d c]
  note rd = process_delta_rename_or_delete [of s d c]
  have fs: ?thesis if "first s" "status d \<noteq> GIT_DELTA_ADDED"
    using that am add_or_modify_first_not_added [of s d c] by simp
  show ?thesis using assms
  proof (elim disjE conjE, goal_cases)
    case 1
    then show ?case using am add_or_modify_added_live [of d s c] by simp
  next
    case 2
    then show ?case using am add_or_modify_modified_not_live [of d s c] by simp
  next
    case 3
    show ?case
    proof (cases "first s")
      case True
      then show ?thesis using 3 fs by simp
    next
      case False
      then show ?thesis using 3 rd rename_or_delete_renamed_fails [of d s] by simp
    qed
  next
    case 4
    show ?case
    proof (cases "first s")
      case True
      then show ?thesis using 4 fs by simp
    next
      case False
      then show ?thesis using 4 rd rename_or_delete_renamed_fails [of d s] by simp
    qed
  next
    case 5
    show ?case
    proof (cases "first s")
      case True
      then show ?thesis using 5 fs by simp
    next
      case False
      then show ?thesis using 5 rd rename_or_delete_deleted_fails [of d s] by simp
    qed
  qed
qed

text \<open>
  C6: in every state, an Added delta on a live path, a Modified delta on a path that is not
  live, a Renamed delta whose new path is live or whose old path is not, and a Deleted
  delta on a path that is not live all fail; and wherever in a walk that state is reached,
  the whole computation ends with that failure.
\<close>

theorem invariant_violation_aborts:
  assumes "(status d = GIT_DELTA_ADDED \<and> new_file_path d \<in> fst ` set (owners s))
         \<or> (status d = GIT_DELTA_MODIFIED \<and> new_file_path d \<notin> fst ` set (owners s))
         \<or> (status d = GIT_DELTA_RENAMED
              \<and> (new_file_path d \<in> fst ` set (owners s) \<or> old_file_path d \<notin> fst ` set (owners s)))
         \<or> (status d = GIT_DELTA_DELETED \<and> old_file_path d \<notin> fst ` set (owners s))"
  shows "\<exists>e. process_delta c s d = Inl e
           \<and> (\<forall>pre s0 ds1 ds2 cs path_exists.
                 walk init_state pre = Inr s0 \<longrightarrow> process_deltas c s0 ds1 = Inr s
                 \<longrightarrow> calculate_stats path_exists (pre @ (c, ds1 @ d # ds2) # cs) = Inl e)"
proof -
  from assms obtain e where e: "process_delta c s d = Inl e"
    using process_delta_violation by blast
  have "calculate_stats path_exists (pre @ (c, ds1 @ d # ds2) # cs) = Inl e"
    if "walk init_state pre = Inr s0" and "process_deltas c s0 ds1 = Inr s"
    for pre s0 ds1 ds2 cs path_exists
    using that e by (rule calculate_stats_failure)
  with e show ?thesis by (intro exI [of _ e] conjI allI impI)
qed

theorem invariant_violation_aborts_witness:
  "process_delta \<lparr>author_name = ''bob'', author_time = 200, author_offset = 0\<rparr>
     \<lparr>owners = [(''a.txt'', {''Vijay Ganesh'', ''David L. Dill''})],
      created_on = [(''a.txt'', \<lparr>instant = 100, utcoffset = 60\<rparr>)],
      all_contributors = {''Vijay Ganesh'', ''David L. Dill''},
      last_vijay_date = Some \<lparr>instant = 100, utcoffset = 60\<rparr>, first = False\<rparr>
     \<lparr>old_file_path = ''a.txt'', new_file_path = ''a.txt'', status = GIT_DELTA_ADDED\<rparr>
     = Inl AssertionError
   \<and> calculate_stats ((=) ''a.txt'')
       [(\<lparr>author_name = ''someone'', author_time = 100, author_offset = 60\<rparr>,
         [\<lparr>old_file_path = ''a.txt'', new_file_path = ''a.txt'', status = GIT_DELTA_ADDED\<rparr>]),
        (\<lparr>author_name = ''bob'', author_time = 200, author_offset = 0\<rparr>,
         [\<lparr>old_file_path = ''a.txt'', new_file_path = ''a.txt'', status = GIT_DELTA_ADDED\<rparr>])]
     = Inl AssertionError"
proof -
  let ?c1 = "\<lparr>author_name = ''someone'', author_time = 100, author_offset = 60\<rparr>"
  let ?c2 = "\<lparr>author_name = ''bob'', author_time = 200, author_offset = 0\<rparr>"
  let ?d = "\<lparr>old_file_path = ''a.txt'', new_file_path = ''a.txt'', status = GIT_DELTA_ADDED\<rparr>"
  let ?s = "\<lparr>owners = [(''a.txt'', {''Vijay Ganesh'', ''David L. Dill''})],
      created_on = [(''a.txt'', \<lparr>instant = 100, utcoffset = 60\<rparr>)],
      all_contributors = {''Vijay Ganesh'', ''David L. Dill''},
      last_vijay_date = Some \<lparr>instant = 100, utcoffset = 60\<rparr>, first = False\<rparr>"
  have viol: "(status ?d = GIT_DELTA_ADDED \<and> new_file_path ?d \<in> fst ` set (owners ?s))
         \<or> (status ?d = GIT_DELTA_MODIFIED \<and> new_file_path ?d \<notin> fst ` set (owners ?s))
         \<or> (status ?d = GIT_DELTA_RENAMED
              \<and> (new_file_path ?d \<in> fst ` set (owners ?s) \<or> old_file_path ?d \<notin> fst ` set (owners ?s)))
         \<or> (status ?d = GIT_DELTA_DELETED \<and> old_file_path ?d \<notin> fst ` set (owners ?s))"
    by simp
  from invariant_violation_aborts [OF viol, where c = ?c2]
  obtain e where e: "process_delta ?c2 ?s ?d = Inl e"
    and ab: "\<And>pre s0 ds1 ds2 cs path_exists.
      walk init_state pre = Inr s0 \<Longrightarrow> process_deltas ?c2 s0 ds1 = Inr ?s
      \<Longrightarrow> calculate_stats path_exists (pre @ (?c2, ds1 @ ?d # ds2) # cs) = Inl e"
    by blast
  have "process_delta ?c2 ?s ?d = Inl AssertionError" by (simp add: eval_defs)
  with e have ea: "e = AssertionError" by simp
  have w: "walk init_state [(?c1, [?d])] = Inr ?s" by (simp add: eval_defs)
  have p: "process_deltas ?c2 ?s [] = Inr ?s" by simp
  from ab [OF w p, of "(=) ''a.txt''" "[]" "[]"] e show ?thesis
    unfolding ea by simp
qed

lemma process_delta_unhandled:
  "\<not> first s \<Longrightarrow> status d \<notin> {GIT_DELTA_ADDED, GIT_DELTA_MODIFIED, GIT_DELTA_RENAMED, GIT_DELTA_DELETED}
     \<Longrightarrow> process_delta c s d = Inl (RuntimeError (unhandled (status d)))"
  unfolding process_delta_def by auto

lemma get_git_type_inj: "get_git_type a = get_git_type b \<Longrightarrow> a = b"
  by (cases a; cases b; simp)

text \<open>
  C7: a delta whose status is none of added, modified, renamed and deleted fails in every
  state, and the whole computation with it. After the first commit the failure is the
  RuntimeError of line 184, whose message ends with the name of the status, and no two
  statuses have the same name; in the first commit it is the assertion of the first
  commit, which fails for every status other than added.
\<close>

theorem unhandled_kind_fails:
  assumes "status d \<notin> {GIT_DELTA_ADDED, GIT_DELTA_MODIFIED, GIT_DELTA_RENAMED, GIT_DELTA_DELETED}"
  shows "\<exists>e. process_delta c s d = Inl e
           \<and> e = (if first s then AssertionError
                  else RuntimeError (''You haven'' @ [CHR 0x27] @ ''t handled: ''
                                      @ get_git_type (status d)))
           \<and> (\<forall>st. get_git_type st = get_git_type (status d) \<longrightarrow> st = status d)
           \<and> (\<forall>pre s0 ds1 ds2 cs path_exists.
                 walk init_state pre = Inr s0 \<longrightarrow> process_deltas c s0 ds1 = Inr s
                 \<longrightarrow> calculate_stats path_exists (pre @ (c, ds1 @ d # ds2) # cs) = Inl e)"
proof -
  let ?e = "if first s then AssertionError
            else RuntimeError (''You haven'' @ [CHR 0x27] @ ''t handled: ''
                                @ get_git_type (status d))"
  have e: "process_delta c s d = Inl ?e"
  proof (cases "first s")
    case True
    moreover from assms have "status d \<noteq> GIT_DELTA_ADDED" by simp
    ultimately show ?thesis
      using process_delta_add_or_modify [of s d c] add_or_modify_first_not_added [of s d c]
      by simp
  next
    case False
    then show ?thesis
      using process_delta_unhandled [OF False assms, of c] by (simp add: unhandled_def)
  qed
  have ab: "\<forall>pre s0 ds1 ds2 cs path_exists.
      walk init_state pre = Inr s0 \<longrightarrow> process_deltas c s0 ds1 = Inr s
      \<longrightarrow> calculate_stats path_exists (pre @ (c, ds1 @ d # ds2) # cs) = Inl ?e"
    by (intro allI impI) (rule calculate_stats_failure [OF _ _ e])
  have nm: "\<forall>st. get_git_type st = get_git_type (status d) \<longrightarrow> st = status d"
    by (intro allI impI) (rule get_git_type_inj)
  show ?thesis
    apply (rule exI [of _ ?e])
    apply (intro conjI)
       apply (rule e)
      apply (rule refl)
     apply (rule nm)
    apply (rule ab)
    done
qed

theorem unhandled_kind_fails_witness:
  "process_delta \<lparr>author_name = ''bob'', author_time = 200, author_offset = 0\<rparr>
     \<lparr>owners = [(''a.txt'', {''Vijay Ganesh'', ''David L. Dill''})],
      created_on = [(''a.txt'', \<lparr>instant = 100, utcoffset = 60\<rparr>)],
      all_contributors = {''Vijay Ganesh'', ''David L. Dill''},
      last_vijay_date = Some \<lparr>instant = 100, utcoffset = 60\<rparr>, first = False\<rparr>
     \<lparr>old_file_path = ''a.txt'', new_file_path = ''b.txt'', status = GIT_DELTA_COPIED\<rparr>
     = Inl (RuntimeError (''You haven'' @ [CHR 0x27] @ ''t handled: GIT_DELTA_COPIED''))
   \<and> process_delta \<lparr>author_name = ''bob'', author_time = 200, author_offset = 0\<rparr>
     init_state
     \<lparr>old_file_path = ''a.txt'', new_file_path = ''a.txt'', status = GIT_DELTA_TYPECHANGE\<rparr>
     = Inl AssertionError"
proof -
  let ?c2 = "\<lparr>author_name = ''bob'', author_time = 200, author_offset = 0\<rparr>"
  let ?d = "\<lparr>old_file_path = ''a.txt'', new_file_path = ''b.txt'', status = GIT_DELTA_COPIED\<rparr>"
  let ?d' = "\<lparr>old_file_path = ''a.txt'', new_file_path = ''a.txt'', status = GIT_DELTA_TYPECHANGE\<rparr>"
  let ?s = "\<lparr>owners = [(''a.txt'', {''Vijay Ganesh'', ''David L. Dill''})],
      created_on = [(''a.txt'', \<lparr>instant = 100, utcoffset = 60\<rparr>)],
      all_contributors = {''Vijay Ganesh'', ''David L. Dill''},
      last_vijay_date = Some \<lparr>instant = 100, utcoffset = 60\<rparr>, first = False\<rparr>"
  have h: "status ?d \<notin> {GIT_DELTA_ADDED, GIT_DELTA_MODIFIED, GIT_DELTA_RENAMED, GIT_DELTA_DELETED}"
    by simp
  have h': "status ?d' \<notin> {GIT_DELTA_ADDED, GIT_DELTA_MODIFIED, GIT_DELTA_RENAMED, GIT_DELTA_DELETED}"
    by simp
  from unhandled_kind_fails [OF h, where c = ?c2 and s = ?s]
  have 1: "process_delta ?c2 ?s ?d
      = Inl (RuntimeError (''You haven'' @ [CHR 0x27] @ ''t handled: GIT_DELTA_COPIED''))"
    by auto
  from unhandled_kind_fails [OF h', where c = ?c2 and s = init_state]
  have 2: "process_delta ?c2 init_state ?d' = Inl AssertionError"
    by (auto simp: init_state_def)
  from 1 2 show ?thesis by (rule conjI)
qed

section \<open>The first commit\<close>

lemma VIJAY_in_vijay_set: "VIJAY_NAME \<in> transform_name VIJAY_NAME"
  unfolding vijay_set by (simp add: VIJAY_NAME_def)

lemma contributor_of_first: "first s \<Longrightarrow> contributor_of c s = {''Vijay Ganesh'', ''David L. Dill''}"
  by (simp add: contributor_of_def vijay_set)

lemma commit_time_Inr:
  "commit_time c = Inr t \<Longrightarrow> t = \<lparr>instant = author_time c, utcoffset = author_offset c\<rparr>"
  by (auto simp: commit_time_def split: if_splits)

lemma commit_time_author_name [simp]: "commit_time (c\<lparr>author_name := n\<rparr>) = commit_time c"
  by (simp add: commit_time_def)

text \<open>What a successful delta of the first commit does.\<close>

lemma add_or_modify_first_Inr:
  assumes "first s" and "add_or_modify c s d = Inr s'"
  shows "status d = GIT_DELTA_ADDED"
    and "old_file_path d = new_file_path d"
    and "new_file_path d \<notin> fst ` set (owners s)"
    and "\<exists>t. commit_time c = Inr t
          \<and> s' = s\<lparr>last_vijay_date := Some t,
                   owners := AList.update (new_file_path d) (transform_name VIJAY_NAME) (owners s),
                   created_on := AList.update (new_file_path d) t (created_on s),
                   all_contributors := all_contributors s \<union> transform_name VIJAY_NAME\<rparr>"
  using assms VIJAY_in_vijay_set unfolding add_or_modify_def contributor_of_def Let_def
  by (auto split: if_splits sum.splits)

lemma add_or_modify_first_author:
  "first s \<Longrightarrow> add_or_modify (c\<lparr>author_name := n\<rparr>) s d = add_or_modify c s d"
  by (simp add: add_or_modify_def contributor_of_def)

text \<open>
  C5: for a delta of the first commit the contributor is Vijay Ganesh with David L. Dill,
  whoever the recorded author of the commit is, and the delta must be an added file: any
  other status fails the assertion, which ends the whole computation.
\<close>

theorem first_commit_bootstrap:
  assumes "first s"
  shows "contributor_of c s = {''Vijay Ganesh'', ''David L. Dill''}
     \<and> process_delta (c\<lparr>author_name := name\<rparr>) s d = process_delta c s d
     \<and> (\<forall>s'. process_delta c s d = Inr s' \<longrightarrow>
            status d = GIT_DELTA_ADDED
          \<and> map_of (owners s') (new_file_path d) = Some {''Vijay Ganesh'', ''David L. Dill''}
          \<and> all_contributors s' = all_contributors s \<union> {''Vijay Ganesh'', ''David L. Dill''}
          \<and> last_vijay_date s' = Some \<lparr>instant = author_time c, utcoffset = author_offset c\<rparr>)
     \<and> (status d \<noteq> GIT_DELTA_ADDED \<longrightarrow>
            process_delta c s d = Inl AssertionError
          \<and> (\<forall>pre s0 ds1 ds2 cs path_exists.
                walk init_state pre = Inr s0 \<longrightarrow> process_deltas c s0 ds1 = Inr s
                \<longrightarrow> calculate_stats path_exists (pre @ (c, ds1 @ d # ds2) # cs)
                      = Inl AssertionError))"
proof -
  note pd = process_delta_add_or_modify [of s d, OF disjI1, OF assms]
  have 1: "contributor_of c s = {''Vijay Ganesh'', ''David L. Dill''}"
    using assms by (rule contributor_of_first)
  have 2: "process_delta (c\<lparr>author_name := name\<rparr>) s d = process_delta c s d"
    unfolding pd using assms by (rule add_or_modify_first_author)
  have 3: "status d = GIT_DELTA_ADDED
          \<and> map_of (owners s') (new_file_path d) = Some {''Vijay Ganesh'', ''David L. Dill''}
          \<and> all_contributors s' = all_contributors s \<union> {''Vijay Ganesh'', ''David L. Dill''}
          \<and> last_vijay_date s' = Some \<lparr>instant = author_time c, utcoffset = author_offset c\<rparr>"
    if "process_delta c s d = Inr s'" for s'
  proof -
    from that have am: "add_or_modify c s d = Inr s'" unfolding pd .
    from add_or_modify_first_Inr(4) [OF assms am] obtain t where t: "commit_time c = Inr t"
      and s': "s' = s\<lparr>last_vijay_date := Some t,
                   owners := AList.update (new_file_path d) (transform_name VIJAY_NAME) (owners s),
                   created_on := AList.update (new_file_path d) t (created_on s),
                   all_contributors := all_contributors s \<union> transform_name VIJAY_NAME\<rparr>"
      by blast
    from t have "t = \<lparr>instant = author_time c, utcoffset = author_offset c\<rparr>"
      by (rule commit_time_Inr)
    with s' add_or_modify_first_Inr(1) [OF assms am] show ?thesis
      by (simp add: update_conv' vijay_set)
  qed
  have 4: "process_delta c s d = Inl AssertionError
          \<and> (\<forall>pre s0 ds1 ds2 cs path_exists.
                walk init_state pre = Inr s0 \<longrightarrow> process_deltas c s0 ds1 = Inr s
                \<longrightarrow> calculate_stats path_exists (pre @ (c, ds1 @ d # ds2) # cs)
                      = Inl AssertionError)"
    if na: "status d \<noteq> GIT_DELTA_ADDED"
  proof -
    have e: "process_delta c s d = Inl AssertionError"
      unfolding pd using assms na by (rule add_or_modify_first_not_added)
    have "\<forall>pre s0 ds1 ds2 cs path_exists.
                walk init_state pre = Inr s0 \<longrightarrow> process_deltas c s0 ds1 = Inr s
                \<longrightarrow> calculate_stats path_exists (pre @ (c, ds1 @ d # ds2) # cs)
                      = Inl AssertionError"
      by (intro allI impI) (rule calculate_stats_failure [OF _ _ e])
    with e show ?thesis by (rule conjI)
  qed
  show ?thesis
    apply (intro conjI allI impI)
           apply (rule 1)
          apply (rule 2)
    using 3 4 apply blast+
    done
qed

theorem first_commit_bootstrap_witness:
  "contributor_of \<lparr>author_name = ''someone'', author_time = 100, author_offset = 60\<rparr> init_state
     = {''Vijay Ganesh'', ''David L. Dill''}
   \<and> process_delta \<lparr>author_name = ''someone'', author_time = 100, author_offset = 60\<rparr> init_state
       \<lparr>old_file_path = ''a.txt'', new_file_path = ''a.txt'', status = GIT_DELTA_ADDED\<rparr>
     = Inr \<lparr>owners = [(''a.txt'', {''Vijay Ganesh'', ''David L. Dill''})],
            created_on = [(''a.txt'', \<lparr>instant = 100, utcoffset = 60\<rparr>)],
            all_contributors = {''Vijay Ganesh'', ''David L. Dill''},
            last_vijay_date = Some \<lparr>instant = 100, utcoffset = 60\<rparr>, first = True\<rparr>
   \<and> process_delta \<lparr>author_name = ''someone'', author_time = 100, author_offset = 60\<rparr> init_state
       \<lparr>old_file_path = ''a.txt'', new_file_path = ''a.txt'', status = GIT_DELTA_MODIFIED\<rparr>
     = Inl AssertionError"
proof -
  let ?c = "\<lparr>author_name = ''someone'', author_time = 100, author_offset = 60\<rparr>"
  let ?a = "\<lparr>old_file_path = ''a.txt'', new_file_path = ''a.txt'', status = GIT_DELTA_ADDED\<rparr>"
  let ?m = "\<lparr>old_file_path = ''a.txt'', new_file_path = ''a.txt'', status = GIT_DELTA_MODIFIED\<rparr>"
  have f: "first init_state" by (simp add: init_state_def)
  have 1: "contributor_of ?c init_state = {''Vijay Ganesh'', ''David L. Dill''}"
    using first_commit_bootstrap [OF f, of ?c] by (rule conjunct1)
  have 2: "process_delta ?c init_state ?a
     = Inr \<lparr>owners = [(''a.txt'', {''Vijay Ganesh'', ''David L. Dill''})],
            created_on = [(''a.txt'', \<lparr>instant = 100, utcoffset = 60\<rparr>)],
            all_contributors = {''Vijay Ganesh'', ''David L. Dill''},
            last_vijay_date = Some \<lparr>instant = 100, utcoffset = 60\<rparr>, first = True\<rparr>"
    by (simp add: eval_defs)
  have "status ?m \<noteq> GIT_DELTA_ADDED" by simp
  with first_commit_bootstrap [OF f, of ?c undefined ?m]
  have 3: "process_delta ?c init_state ?m = Inl AssertionError" by blast
  from 1 2 3 show ?thesis by (intro conjI)
qed

section \<open>The date of Vijay's last commit\<close>

lemma process_delta_last_Some:
  "process_delta c s d = Inr s' \<Longrightarrow> last_vijay_date s = Some t
     \<Longrightarrow> \<exists>t'. last_vijay_date s' = Some t'"
  unfolding process_delta_def add_or_modify_def rename_or_delete_def rename_in_def
    delete_old_def Let_def
  by (auto split: if_splits sum.splits option.splits)

lemma process_deltas_last_Some:
  "process_deltas c s ds = Inr s' \<Longrightarrow> last_vijay_date s = Some t
     \<Longrightarrow> \<exists>t'. last_vijay_date s' = Some t'"
proof (induction ds arbitrary: s t)
  case Nil
  then show ?case by simp
next
  case (Cons d ds)
  from Cons.prems(1) obtain s1 where s1: "process_delta c s d = Inr s1"
    and r: "process_deltas c s1 ds = Inr s'"
    by (auto split: sum.splits)
  from process_delta_last_Some [OF s1 Cons.prems(2)] obtain t1
    where "last_vijay_date s1 = Some t1" by blast
  with Cons.IH [OF r] show ?case by blast
qed

lemma walk_last_Some:
  "walk s cs = Inr s' \<Longrightarrow> last_vijay_date s = Some t \<Longrightarrow> \<exists>t'. last_vijay_date s' = Some t'"
proof (induction s cs arbitrary: t rule: walk.induct)
  case (1 s)
  then show ?case by simp
next
  case (2 s c ds cs)
  from "2.prems"(1) obtain s1 where s1: "process_deltas c s ds = Inr s1"
    and r: "walk (s1\<lparr>first := False\<rparr>) cs = Inr s'"
    by (auto split: sum.splits)
  from process_deltas_last_Some [OF s1 "2.prems"(2)] obtain t1
    where "last_vijay_date (s1\<lparr>first := False\<rparr>) = Some t1" by auto
  with "2.IH" [OF s1 r] show ?case by blast
qed

lemma report_error:
  "report path_exists created vijay_date os = Inl e \<Longrightarrow> e = AssertionError \<or> e = KeyError"
  by (induction path_exists created vijay_date os arbitrary: e rule: report.induct)
    (auto split: if_splits option.splits sum.splits)

text \<open>
  C10: when the first commit of a walk has at least one delta and the walk does not
  fail, the date of Vijay's last commit is set at the end, so the report never fails for
  want of it.
\<close>

theorem last_vijay_date_set:
  assumes "walk init_state ((c, d # ds) # cs) = Inr s"
  shows "(\<exists>t. last_vijay_date s = Some t)
         \<and> calculate_stats path_exists ((c, d # ds) # cs) \<noteq> Inl AttributeError"
proof -
  from assms obtain s1 s2 where s1: "process_delta c init_state d = Inr s1"
    and s2: "process_deltas c s1 ds = Inr s2"
    and r: "walk (s2\<lparr>first := False\<rparr>) cs = Inr s"
    by (auto split: sum.splits)
  have f: "first init_state" by (simp add: init_state_def)
  from s1 have "add_or_modify c init_state d = Inr s1"
    using process_delta_add_or_modify [of init_state d c] f by simp
  from add_or_modify_first_Inr(4) [OF f this] obtain t where "last_vijay_date s1 = Some t"
    by auto
  from process_deltas_last_Some [OF s2 this] obtain t2
    where "last_vijay_date (s2\<lparr>first := False\<rparr>) = Some t2" by auto
  from walk_last_Some [OF r this] obtain t3 where t3: "last_vijay_date s = Some t3" by blast
  then have "calculate_stats path_exists ((c, d # ds) # cs) \<noteq> Inl AttributeError"
    unfolding calculate_stats_def using assms report_error [of path_exists "created_on s" t3 "owners s"]
    by (auto split: sum.splits)
  with t3 show ?thesis by blast
qed

theorem last_vijay_date_set_witness:
  "walk init_state
     [(\<lparr>author_name = ''someone'', author_time = 100, author_offset = 60\<rparr>,
       [\<lparr>old_file_path = ''a.txt'', new_file_path = ''a.txt'', status = GIT_DELTA_ADDED\<rparr>]),
      (\<lparr>author_name = ''alice'', author_time = 200, author_offset = 0\<rparr>,
       [\<lparr>old_file_path = ''a.txt'', new_file_path = ''a.txt'', status = GIT_DELTA_MODIFIED\<rparr>])]
     = Inr \<lparr>owners = [(''a.txt'', {''Vijay Ganesh'', ''David L. Dill'', ''Alice''})],
            created_on = [(''a.txt'', \<lparr>instant = 100, utcoffset = 60\<rparr>)],
            all_contributors = {''Vijay Ganesh'', ''David L. Dill'', ''Alice''},
            last_vijay_date = Some \<lparr>instant = 100, utcoffset = 60\<rparr>, first = False\<rparr>
   \<and> calculate_stats ((=) ''a.txt'')
       [(\<lparr>author_name = ''someone'', author_time = 100, author_offset = 60\<rparr>,
         [\<lparr>old_file_path = ''a.txt'', new_file_path = ''a.txt'', status = GIT_DELTA_ADDED\<rparr>]),
        (\<lparr>author_name = ''alice'', author_time = 200, author_offset = 0\<rparr>,
         [\<lparr>old_file_path = ''a.txt'', new_file_path = ''a.txt'', status = GIT_DELTA_MODIFIED\<rparr>])]
     \<noteq> Inl AttributeError
   \<and> calculate_stats ((=) ''a.txt'') [] = Inl AttributeError"
proof -
  let ?c1 = "\<lparr>author_name = ''someone'', author_time = 100, author_offset = 60\<rparr>"
  let ?c2 = "\<lparr>author_name = ''alice'', author_time = 200, author_offset = 0\<rparr>"
  let ?a = "\<lparr>old_file_path = ''a.txt'', new_file_path = ''a.txt'', status = GIT_DELTA_ADDED\<rparr>"
  let ?m = "\<lparr>old_file_path = ''a.txt'', new_file_path = ''a.txt'', status = GIT_DELTA_MODIFIED\<rparr>"
  let ?s = "\<lparr>owners = [(''a.txt'', {''Vijay Ganesh'', ''David L. Dill'', ''Alice''})],
            created_on = [(''a.txt'', \<lparr>instant = 100, utcoffset = 60\<rparr>)],
            all_contributors = {''Vijay Ganesh'', ''David L. Dill'', ''Alice''},
            last_vijay_date = Some \<lparr>instant = 100, utcoffset = 60\<rparr>, first = False\<rparr>"
  have w: "walk init_state [(?c1, ?a # []), (?c2, [?m])] = Inr ?s"
    by (simp add: eval_defs insert_commute)
  have 2: "calculate_stats ((=) ''a.txt'') [(?c1, ?a # []), (?c2, [?m])] \<noteq> Inl AttributeError"
    using last_vijay_date_set [OF w] by (rule conjunct2)
  have 3: "calculate_stats ((=) ''a.txt'') [] = Inl AttributeError"
    by (simp add: calculate_stats_def init_state_def)
  from w 2 3 show ?thesis by (intro conjI)
qed




lemma process_delta_cases:
  assumes "process_delta c s d = Inr s'"
  obtains (am) "status d = GIT_DELTA_ADDED \<or> status d = GIT_DELTA_MODIFIED"
      "add_or_modify c s d = Inr s'"
    | (rd) "status d = GIT_DELTA_RENAMED \<or> status d = GIT_DELTA_DELETED" "\<not> first s"
      "rename_or_delete s d = Inr s'"
proof (cases "first s \<or> status d = GIT_DELTA_ADDED \<or> status d = GIT_DELTA_MODIFIED")
  case True
  with assms have a: "add_or_modify c s d = Inr s'"
    using process_delta_add_or_modify [of s d c] by simp
  have "status d = GIT_DELTA_ADDED \<or> status d = GIT_DELTA_MODIFIED"
  proof (cases "first s")
    case True
    then show ?thesis using add_or_modify_first_Inr(1) [OF True a] by simp
  next
    case False
    with \<open>first s \<or> status d = GIT_DELTA_ADDED \<or> status d = GIT_DELTA_MODIFIED\<close>
    show ?thesis by simp
  qed
  then show ?thesis using a by (rule am)
next
  case False
  then have nf: "\<not> first s" and na: "status d \<noteq> GIT_DELTA_ADDED"
    and nm: "status d \<noteq> GIT_DELTA_MODIFIED" by simp_all
  have k: "status d = GIT_DELTA_RENAMED \<or> status d = GIT_DELTA_DELETED"
  proof (rule ccontr)
    assume "\<not> ?thesis"
    with na nm have "status d \<notin> {GIT_DELTA_ADDED, GIT_DELTA_MODIFIED, GIT_DELTA_RENAMED,
      GIT_DELTA_DELETED}" by simp
    from process_delta_unhandled [OF nf this, of c] assms show False by simp
  qed
  with nf assms have "rename_or_delete s d = Inr s'"
    using process_delta_rename_or_delete [of s d c] by simp
  with k nf show ?thesis by (rule rd)
qed







section \<open>The labels\<close>

lemma ownership_cases:
  "ownership file_owners added_date vijay_date =
     (if file_owners = {''Vijay Ganesh'', ''David L. Dill''} then ''Complete''
      else if file_owners \<inter> {''Vijay Ganesh'', ''David L. Dill''} \<noteq> {} then ''Partial''
      else if instant added_date < instant vijay_date then ''Inherited''
      else ''None'')"
  unfolding ownership_def Let_def vijay_set dt_less_def
  by (simp only: Int_commute)

lemma report_lines:
  "report path_exists created vijay_date os = Inr ls
     \<Longrightarrow> (lab, p, t) \<in> set ls
         \<longleftrightarrow> (\<exists>file_owners. (p, file_owners) \<in> set os \<and> map_of created p = Some t
               \<and> lab = ownership file_owners t vijay_date)"
proof (induction path_exists created vijay_date os arbitrary: ls rule: report.induct)
  case (1 path_exists created vijay_date)
  then show ?case by simp
next
  case (2 path_exists created vijay_date fname file_owners rest)
  from "2.prems" obtain added_date ls' where pe: "path_exists fname"
    and ad: "map_of created fname = Some added_date"
    and r: "report path_exists created vijay_date rest = Inr ls'"
    and ls: "ls = (ownership file_owners added_date vijay_date, fname, added_date) # ls'"
    by (auto split: if_splits option.splits sum.splits)
  from pe have npe: "\<not> \<not> path_exists fname" by simp
  note IH = "2.IH" [OF npe ad r]
  show ?case unfolding ls using IH ad by auto
qed

lemma report_paths:
  "report path_exists created vijay_date os = Inr ls
     \<Longrightarrow> map (\<lambda>l. fst (snd l)) ls = map fst os"
  by (induction path_exists created vijay_date os arbitrary: ls rule: report.induct)
    (auto split: if_splits option.splits sum.splits)

lemma report_succeeds:
  "\<forall>p \<in> fst ` set os. path_exists p \<and> p \<in> fst ` set created
     \<Longrightarrow> \<exists>ls. report path_exists created vijay_date os = Inr ls"
proof (induction os)
  case Nil
  then show ?case by simp
next
  case (Cons a os)
  obtain fname file_owners where a: "a = (fname, file_owners)" by (cases a)
  from Cons.prems a have pe: "path_exists fname" and "fname \<in> fst ` set created" by auto
  then obtain t where t: "map_of created fname = Some t"
    using map_of_None_iff [of created fname] by (cases "map_of created fname") auto
  from Cons.prems Cons.IH obtain ls where "report path_exists created vijay_date os = Inr ls"
    by auto
  with pe t show ?case unfolding a by simp
qed

text \<open>
  C1: after a walk that has not failed and has set the date of Vijay's last commit, the
  report has, for every file that is live and in the working tree, exactly one line, and
  its label is Complete when the owners of the file are exactly Vijay Ganesh and David L.
  Dill, otherwise Partial when one of the two is among them, otherwise Inherited when the
  file was created strictly before that date, otherwise None.
\<close>

theorem report_label:
  assumes "walk init_state cs = Inr s" and "last_vijay_date s = Some vijay_date"
    and "map_of (owners s) p = Some file_owners"
    and "\<forall>q \<in> fst ` set (owners s). path_exists q"
  shows "\<exists>added_date ls.
           map_of (created_on s) p = Some added_date
         \<and> calculate_stats path_exists cs = Inr (vijay_date, ls)
         \<and> (\<forall>lab t. (lab, p, t) \<in> set ls \<longleftrightarrow>
               t = added_date
             \<and> lab = (if file_owners = {''Vijay Ganesh'', ''David L. Dill''} then ''Complete''
                      else if file_owners \<inter> {''Vijay Ganesh'', ''David L. Dill''} \<noteq> {}
                        then ''Partial''
                      else if instant added_date < instant vijay_date then ''Inherited''
                      else ''None''))"
proof -
  have l: "lockstep s" using lockstep_init assms(1) by (rule walk_lockstep)
  then have k: "fst ` set (created_on s) = fst ` set (owners s)" by (rule lockstep_keys)
  from l have d: "distinct (map fst (owners s))" unfolding lockstep_def by blast
  from assms(3) have pin: "p \<in> fst ` set (owners s)"
    using map_of_None_iff [of "owners s" p] by auto
  with k obtain added_date where ad: "map_of (created_on s) p = Some added_date"
    using map_of_None_iff [of "created_on s" p] by (cases "map_of (created_on s) p") auto
  from assms(4) k have "\<forall>q \<in> fst ` set (owners s). path_exists q \<and> q \<in> fst ` set (created_on s)"
    by simp
  from report_succeeds [OF this] obtain ls
    where ls: "report path_exists (created_on s) vijay_date (owners s) = Inr ls" by blast
  have cs: "calculate_stats path_exists cs = Inr (vijay_date, ls)"
    unfolding calculate_stats_def using assms(1,2) ls by simp
  have own: "(p, fo) \<in> set (owners s) \<longleftrightarrow> fo = file_owners" for fo
    using map_of_eq_Some_iff [OF d, of p fo] assms(3) by auto
  have "(lab, p, t) \<in> set ls \<longleftrightarrow>
      t = added_date \<and> lab = ownership file_owners added_date vijay_date" for lab t
    unfolding report_lines [OF ls] own ad by auto
  then have "\<forall>lab t. (lab, p, t) \<in> set ls \<longleftrightarrow>
      t = added_date \<and> lab = ownership file_owners added_date vijay_date"
    by (intro allI)
  note lines = this [unfolded ownership_cases]
  show ?thesis
    apply (rule exI [of _ added_date])
    apply (rule exI [of _ ls])
    apply (intro conjI)
      apply (rule ad)
     apply (rule cs)
    apply (rule lines)
    done
qed

lemmas report_defs = calculate_stats_def ownership_def dt_less_def

lemma neq_if_mem: "x \<in> A \<Longrightarrow> x \<notin> B \<Longrightarrow> A \<noteq> B"
  by auto

theorem report_label_witness:
  "calculate_stats ((\<noteq>) [])
     [(\<lparr>author_name = ''someone'', author_time = 100, author_offset = 60\<rparr>,
       [\<lparr>old_file_path = ''a.txt'', new_file_path = ''a.txt'', status = GIT_DELTA_ADDED\<rparr>,
        \<lparr>old_file_path = ''b.txt'', new_file_path = ''b.txt'', status = GIT_DELTA_ADDED\<rparr>]),
      (\<lparr>author_name = ''alice'', author_time = 200, author_offset = 0\<rparr>,
       [\<lparr>old_file_path = ''a.txt'', new_file_path = ''a.txt'', status = GIT_DELTA_MODIFIED\<rparr>,
        \<lparr>old_file_path = ''c.txt'', new_file_path = ''c.txt'', status = GIT_DELTA_ADDED\<rparr>]),
      (\<lparr>author_name = ''vijay ganesh'', author_time = 300, author_offset = 0\<rparr>,
       [\<lparr>old_file_path = ''b.txt'', new_file_path = ''b.txt'', status = GIT_DELTA_MODIFIED\<rparr>]),
      (\<lparr>author_name = ''alice'', author_time = 400, author_offset = 0\<rparr>,
       [\<lparr>old_file_path = ''e.txt'', new_file_path = ''e.txt'', status = GIT_DELTA_ADDED\<rparr>])]
   = Inr (\<lparr>instant = 300, utcoffset = 0\<rparr>,
          [(''Partial'', ''a.txt'', \<lparr>instant = 100, utcoffset = 60\<rparr>),
           (''Complete'', ''b.txt'', \<lparr>instant = 100, utcoffset = 60\<rparr>),
           (''Inherited'', ''c.txt'', \<lparr>instant = 200, utcoffset = 0\<rparr>),
           (''None'', ''e.txt'', \<lparr>instant = 400, utcoffset = 0\<rparr>)])"
proof -
  let ?cs = "[(\<lparr>author_name = ''someone'', author_time = 100, author_offset = 60\<rparr>,
       [\<lparr>old_file_path = ''a.txt'', new_file_path = ''a.txt'', status = GIT_DELTA_ADDED\<rparr>,
        \<lparr>old_file_path = ''b.txt'', new_file_path = ''b.txt'', status = GIT_DELTA_ADDED\<rparr>]),
      (\<lparr>author_name = ''alice'', author_time = 200, author_offset = 0\<rparr>,
       [\<lparr>old_file_path = ''a.txt'', new_file_path = ''a.txt'', status = GIT_DELTA_MODIFIED\<rparr>,
        \<lparr>old_file_path = ''c.txt'', new_file_path = ''c.txt'', status = GIT_DELTA_ADDED\<rparr>]),
      (\<lparr>author_name = ''vijay ganesh'', author_time = 300, author_offset = 0\<rparr>,
       [\<lparr>old_file_path = ''b.txt'', new_file_path = ''b.txt'', status = GIT_DELTA_MODIFIED\<rparr>]),
      (\<lparr>author_name = ''alice'', author_time = 400, author_offset = 0\<rparr>,
       [\<lparr>old_file_path = ''e.txt'', new_file_path = ''e.txt'', status = GIT_DELTA_ADDED\<rparr>])]"
  let ?s = "\<lparr>owners = [(''a.txt'', {''Vijay Ganesh'', ''David L. Dill'', ''Alice''}),
                     (''b.txt'', {''Vijay Ganesh'', ''David L. Dill''}),
                     (''c.txt'', {''Alice''}), (''e.txt'', {''Alice''})],
            created_on = [(''a.txt'', \<lparr>instant = 100, utcoffset = 60\<rparr>),
                          (''b.txt'', \<lparr>instant = 100, utcoffset = 60\<rparr>),
                          (''c.txt'', \<lparr>instant = 200, utcoffset = 0\<rparr>),
                          (''e.txt'', \<lparr>instant = 400, utcoffset = 0\<rparr>)],
            all_contributors = {''Vijay Ganesh'', ''David L. Dill'', ''Alice''},
            last_vijay_date = Some \<lparr>instant = 300, utcoffset = 0\<rparr>, first = False\<rparr>"
  let ?ls = "[(''Partial'', ''a.txt'', \<lparr>instant = 100, utcoffset = 60\<rparr>),
           (''Complete'', ''b.txt'', \<lparr>instant = 100, utcoffset = 60\<rparr>),
           (''Inherited'', ''c.txt'', \<lparr>instant = 200, utcoffset = 0\<rparr>),
           (''None'', ''e.txt'', \<lparr>instant = (400::int), utcoffset = (0::int)\<rparr>)]"
  have w: "walk init_state ?cs = Inr ?s"
    by (simp add: eval_defs insert_commute)
  have lv: "last_vijay_date ?s = Some \<lparr>instant = 300, utcoffset = 0\<rparr>" by simp
  have m: "map_of (owners ?s) ''c.txt'' = Some {''Alice''}" by simp
  have pe: "\<forall>q \<in> fst ` set (owners ?s). [] \<noteq> q" by simp
  from report_label [OF w lv m pe]
  have "\<exists>ls. calculate_stats ((\<noteq>) []) ?cs = Inr (\<lparr>instant = 300, utcoffset = 0\<rparr>, ls)"
    apply (elim exE conjE)
    apply (rule exI)
    apply assumption
    done
  then obtain ls
    where c1: "calculate_stats ((\<noteq>) []) ?cs = Inr (\<lparr>instant = 300, utcoffset = 0\<rparr>, ls)" ..
  have o1: "ownership {''Vijay Ganesh'', ''David L. Dill'', ''Alice''}
      \<lparr>instant = 100, utcoffset = 60\<rparr> \<lparr>instant = 300, utcoffset = 0\<rparr> = ''Partial''"
  proof -
    have "{''Vijay Ganesh'', ''David L. Dill'', ''Alice''} \<noteq> {''Vijay Ganesh'', ''David L. Dill''}"
      by (rule neq_if_mem [of "''Alice''"]) simp_all
    then show ?thesis by (simp add: ownership_cases)
  qed
  have o2: "ownership {''Vijay Ganesh'', ''David L. Dill''}
      \<lparr>instant = 100, utcoffset = 60\<rparr> \<lparr>instant = 300, utcoffset = 0\<rparr> = ''Complete''"
    by (simp add: ownership_cases)
  have na: "{''Alice''} \<noteq> {''Vijay Ganesh'', ''David L. Dill''}"
    by (rule singleton_neq_pair) simp
  have o3: "ownership {''Alice''}
      \<lparr>instant = 200, utcoffset = 0\<rparr> \<lparr>instant = 300, utcoffset = 0\<rparr> = ''Inherited''"
    using na by (simp add: ownership_cases)
  have o4: "ownership {''Alice''}
      \<lparr>instant = 400, utcoffset = 0\<rparr> \<lparr>instant = 300, utcoffset = 0\<rparr> = ''None''"
    using na by (simp add: ownership_cases)
  have r: "report ((\<noteq>) []) (created_on ?s) \<lparr>instant = 300, utcoffset = 0\<rparr> (owners ?s)
      = Inr ?ls"
    by (simp add: o1 o2 o3 o4)
  have c2: "calculate_stats ((\<noteq>) []) ?cs = Inr (\<lparr>instant = 300, utcoffset = 0\<rparr>, ?ls)"
    unfolding calculate_stats_def w using r by simp
  from c1 c2 have "ls = ?ls" by simp
  with c1 show ?thesis by simp
qed

section \<open>Renames\<close>

lemma keys_delete: "fst ` set (AList.delete k al) = fst ` set al - {k}"
  by (induction al) auto

lemma follow_all_append: "follow_all p (xs @ ys) = follow_all (follow_all p xs) ys"
  by (induction xs arbitrary: p) auto

lemma survives_append:
  "survives p (xs @ ys) \<longleftrightarrow> survives p xs \<and> survives (follow_all p xs) ys"
  by (induction xs arbitrary: p) auto

text \<open>What a rename does to a state after the first commit.\<close>

lemma rename_or_delete_renamed:
  assumes "status d = GIT_DELTA_RENAMED"
    and "map_of (owners s) (old_file_path d) = Some os"
    and "map_of (created_on s) (old_file_path d) = Some t"
    and "new_file_path d \<notin> fst ` set (owners s)"
  shows "rename_or_delete s d =
     Inr (s\<lparr>owners := AList.delete (old_file_path d)
                         (AList.update (new_file_path d) os (owners s)),
            created_on := AList.delete (old_file_path d)
                         (AList.update (new_file_path d) t (created_on s))\<rparr>)"
proof -
  from assms(2) have o: "old_file_path d \<in> fst ` set (owners s)"
    using map_of_None_iff [of "owners s" "old_file_path d"] by auto
  from assms(3) have c: "old_file_path d \<in> fst ` set (created_on s)"
    using map_of_None_iff [of "created_on s" "old_file_path d"] by auto
  have r: "rename_in s d = Inr (s\<lparr>owners := AList.update (new_file_path d) os (owners s),
      created_on := AList.update (new_file_path d) t (created_on s)\<rparr>)"
    using assms by (simp add: rename_in_def)
  show ?thesis
    unfolding rename_or_delete_def r using assms(1) o c
    by (simp add: delete_old_def dom_update)
qed

lemma add_or_modify_follow:
  assumes "add_or_modify c s d = Inr s'" and "p \<in> fst ` set (owners s)"
  shows "p \<in> fst ` set (owners s') \<and> map_of (created_on s') p = map_of (created_on s) p"
proof -
  from assms(2) have l: "map_of (owners s) p \<noteq> None" by (simp add: map_of_None_iff)
  have "map_of (owners s') p \<noteq> None \<and> map_of (created_on s') p = map_of (created_on s) p"
    using assms(1) l unfolding add_or_modify_def Let_def
    by (auto simp: map_of_None_iff [symmetric] update_conv'
        split: if_splits sum.splits option.splits)
  then show ?thesis by (simp add: map_of_None_iff)
qed

lemma rename_or_delete_follow:
  assumes "rename_or_delete s d = Inr s'" and "p \<in> fst ` set (owners s)"
    and "status d = GIT_DELTA_RENAMED \<or> status d = GIT_DELTA_DELETED"
    and "\<not> (status d = GIT_DELTA_DELETED \<and> old_file_path d = p)"
  shows "follow p d \<in> fst ` set (owners s')
       \<and> map_of (created_on s') (follow p d) = map_of (created_on s) p"
proof (cases "status d = GIT_DELTA_RENAMED")
  case True
  from assms(1) True obtain s1 where s1: "rename_in s d = Inr s1"
    and s': "delete_old s1 d = Inr s'"
    unfolding rename_or_delete_def by (auto split: sum.splits)
  from s1 obtain os t where nl: "new_file_path d \<notin> fst ` set (owners s)"
    and os: "map_of (owners s) (old_file_path d) = Some os"
    and t: "map_of (created_on s) (old_file_path d) = Some t"
    unfolding rename_in_def by (auto split: if_splits option.splits)
  from os have ol: "old_file_path d \<in> fst ` set (owners s)"
    using map_of_None_iff [of "owners s" "old_file_path d"] by auto
  with nl have ne: "new_file_path d \<noteq> old_file_path d" by metis
  from nl assms(2) have np: "new_file_path d \<noteq> p" by metis
  from rename_or_delete_renamed [OF True os t nl] assms(1)
  have e: "s' = s\<lparr>owners := AList.delete (old_file_path d)
                         (AList.update (new_file_path d) os (owners s)),
            created_on := AList.delete (old_file_path d)
                         (AList.update (new_file_path d) t (created_on s))\<rparr>"
    by simp
  show ?thesis
  proof (cases "old_file_path d = p")
    case op: True
    with True have "follow p d = new_file_path d" by (simp add: follow_def)
    then show ?thesis unfolding e using ne t op
      by (simp add: keys_delete dom_update delete_conv' update_conv')
  next
    case op: False
    with True have "follow p d = p" by (simp add: follow_def)
    then show ?thesis unfolding e using np op assms(2)
      by (simp add: keys_delete dom_update delete_conv' update_conv')
  qed
next
  case False
  with assms(1) have s': "delete_old s d = Inr s'" by (simp add: rename_or_delete_def)
  from False have f: "follow p d = p" by (simp add: follow_def)
  from False assms(3,4) have op: "old_file_path d \<noteq> p" by simp
  from s' have e: "s' = s\<lparr>owners := AList.delete (old_file_path d) (owners s),
      created_on := AList.delete (old_file_path d) (created_on s)\<rparr>"
    unfolding delete_old_def by (auto split: if_splits)
  show ?thesis unfolding e f using op assms(2)
    by (simp add: keys_delete delete_conv')
qed

lemma process_delta_follow:
  assumes "process_delta c s d = Inr s'" and "p \<in> fst ` set (owners s)"
    and "\<not> (status d = GIT_DELTA_DELETED \<and> old_file_path d = p)"
  shows "follow p d \<in> fst ` set (owners s')
       \<and> map_of (created_on s') (follow p d) = map_of (created_on s) p"
  using assms(1)
proof (cases rule: process_delta_cases)
  case am
  then have "follow p d = p" by (auto simp: follow_def)
  with add_or_modify_follow [OF am(2) assms(2)] show ?thesis by simp
next
  case rd
  from rename_or_delete_follow [OF rd(3) assms(2) rd(1) assms(3)] show ?thesis .
qed

lemma process_deltas_follow:
  "process_deltas c s ds = Inr s' \<Longrightarrow> p \<in> fst ` set (owners s) \<Longrightarrow> survives p ds
     \<Longrightarrow> follow_all p ds \<in> fst ` set (owners s')
       \<and> map_of (created_on s') (follow_all p ds) = map_of (created_on s) p"
proof (induction ds arbitrary: s p)
  case Nil
  then show ?case by simp
next
  case (Cons d ds)
  from Cons.prems(1) obtain s1 where s1: "process_delta c s d = Inr s1"
    and r: "process_deltas c s1 ds = Inr s'"
    by (auto split: sum.splits)
  from Cons.prems(3) have nd: "\<not> (status d = GIT_DELTA_DELETED \<and> old_file_path d = p)"
    and sv: "survives (follow p d) ds" by simp_all
  from process_delta_follow [OF s1 Cons.prems(2) nd]
  have l: "follow p d \<in> fst ` set (owners s1)"
    and c1: "map_of (created_on s1) (follow p d) = map_of (created_on s) p" by simp_all
  from Cons.IH [OF r l sv] c1 show ?case by simp
qed

lemma walk_follow:
  "walk s cs = Inr s' \<Longrightarrow> p \<in> fst ` set (owners s) \<Longrightarrow> survives p (concat (map snd cs))
     \<Longrightarrow> follow_all p (concat (map snd cs)) \<in> fst ` set (owners s')
       \<and> map_of (created_on s') (follow_all p (concat (map snd cs))) = map_of (created_on s) p"
proof (induction s cs arbitrary: p rule: walk.induct)
  case (1 s)
  then show ?case by simp
next
  case (2 s c ds cs)
  from "2.prems"(1) obtain s1 where s1: "process_deltas c s ds = Inr s1"
    and r: "walk (s1\<lparr>first := False\<rparr>) cs = Inr s'"
    by (auto split: sum.splits)
  from "2.prems"(3) have sv1: "survives p ds"
    and sv2: "survives (follow_all p ds) (concat (map snd cs))"
    by (simp_all add: survives_append)
  from process_deltas_follow [OF s1 "2.prems"(2) sv1]
  have l: "follow_all p ds \<in> fst ` set (owners (s1\<lparr>first := False\<rparr>))"
    and c1: "map_of (created_on (s1\<lparr>first := False\<rparr>)) (follow_all p ds) = map_of (created_on s) p"
    by simp_all
  from "2.IH" [OF s1 r l sv2] c1 show ?case by (simp add: follow_all_append)
qed

lemma add_or_modify_added:
  assumes "add_or_modify c s d = Inr s'" and "status d = GIT_DELTA_ADDED"
  shows "new_file_path d \<in> fst ` set (owners s')
     \<and> map_of (created_on s') (new_file_path d)
         = Some \<lparr>instant = author_time c, utcoffset = author_offset c\<rparr>"
proof -
  from assms obtain t where t: "commit_time c = Inr t"
    unfolding add_or_modify_def Let_def by (auto split: if_splits sum.splits)
  then have "t = \<lparr>instant = author_time c, utcoffset = author_offset c\<rparr>"
    by (rule commit_time_Inr)
  with assms t have "map_of (owners s') (new_file_path d) \<noteq> None
     \<and> map_of (created_on s') (new_file_path d)
         = Some \<lparr>instant = author_time c, utcoffset = author_offset c\<rparr>"
    unfolding add_or_modify_def Let_def
    by (auto simp: update_conv' split: if_splits)
  then show ?thesis by (simp add: map_of_None_iff)
qed

text \<open>
  C2, as amended: after the first commit (\<open>first\<close> is False), in a state where the old
  path is in both dictionaries and the new path is not in \<open>owners\<close>, a renamed delta
  succeeds, gives the new path the owners and the creation date the old path had, removes
  the old path from both dictionaries, and leaves \<open>all_contributors\<close> and the date of
  Vijay's last commit as they were. And from the delta that adds a file onwards, through
  the rest of that commit and any later commits that do not fail, as long as no delta
  deletes the file under its current name (so through any renames and modifications), the
  creation date under its current name is the date of the commit that added it.
\<close>

theorem rename_carries_owners_and_date:
  "(\<not> first s \<and> status d = GIT_DELTA_RENAMED
      \<and> map_of (owners s) (old_file_path d) = Some os
      \<and> map_of (created_on s) (old_file_path d) = Some t
      \<and> new_file_path d \<notin> fst ` set (owners s)
     \<longrightarrow> (\<exists>s'. process_delta c s d = Inr s'
            \<and> map_of (owners s') (new_file_path d) = Some os
            \<and> map_of (created_on s') (new_file_path d) = Some t
            \<and> old_file_path d \<notin> fst ` set (owners s')
            \<and> old_file_path d \<notin> fst ` set (created_on s')
            \<and> all_contributors s' = all_contributors s
            \<and> last_vijay_date s' = last_vijay_date s))
   \<and> (process_delta c0 s0 d0 = Inr s1 \<and> status d0 = GIT_DELTA_ADDED
      \<and> process_deltas c0 s1 ds0 = Inr s2 \<and> walk (s2\<lparr>first := False\<rparr>) cs = Inr s3
      \<and> survives (new_file_path d0) (ds0 @ concat (map snd cs))
     \<longrightarrow> map_of (created_on s1) (new_file_path d0)
           = Some \<lparr>instant = author_time c0, utcoffset = author_offset c0\<rparr>
         \<and> map_of (created_on s3) (follow_all (new_file_path d0) (ds0 @ concat (map snd cs)))
           = Some \<lparr>instant = author_time c0, utcoffset = author_offset c0\<rparr>)"
proof (intro conjI impI; elim conjE)
  assume nf: "\<not> first s" and st: "status d = GIT_DELTA_RENAMED"
    and os: "map_of (owners s) (old_file_path d) = Some os"
    and t: "map_of (created_on s) (old_file_path d) = Some t"
    and nl: "new_file_path d \<notin> fst ` set (owners s)"
  let ?s' = "s\<lparr>owners := AList.delete (old_file_path d)
                         (AList.update (new_file_path d) os (owners s)),
            created_on := AList.delete (old_file_path d)
                         (AList.update (new_file_path d) t (created_on s))\<rparr>"
  from os have "old_file_path d \<in> fst ` set (owners s)"
    using map_of_None_iff [of "owners s" "old_file_path d"] by auto
  with nl have ne: "new_file_path d \<noteq> old_file_path d" by metis
  have pd: "process_delta c s d = Inr ?s'"
    using process_delta_rename_or_delete [of s d c] nf st
      rename_or_delete_renamed [OF st os t nl] by simp
  have "map_of (owners ?s') (new_file_path d) = Some os
            \<and> map_of (created_on ?s') (new_file_path d) = Some t
            \<and> old_file_path d \<notin> fst ` set (owners ?s')
            \<and> old_file_path d \<notin> fst ` set (created_on ?s')
            \<and> all_contributors ?s' = all_contributors s
            \<and> last_vijay_date ?s' = last_vijay_date s"
    using ne by (simp add: keys_delete delete_conv' update_conv')
  with pd show "\<exists>s'. process_delta c s d = Inr s'
            \<and> map_of (owners s') (new_file_path d) = Some os
            \<and> map_of (created_on s') (new_file_path d) = Some t
            \<and> old_file_path d \<notin> fst ` set (owners s')
            \<and> old_file_path d \<notin> fst ` set (created_on s')
            \<and> all_contributors s' = all_contributors s
            \<and> last_vijay_date s' = last_vijay_date s"
    by (intro exI [of _ ?s'] conjI) simp_all
next
  assume s1: "process_delta c0 s0 d0 = Inr s1" and st: "status d0 = GIT_DELTA_ADDED"
    and s2: "process_deltas c0 s1 ds0 = Inr s2"
    and s3: "walk (s2\<lparr>first := False\<rparr>) cs = Inr s3"
    and sv: "survives (new_file_path d0) (ds0 @ concat (map snd cs))"
  let ?p = "new_file_path d0"
  from s1 st have "add_or_modify c0 s0 d0 = Inr s1"
    using process_delta_add_or_modify [of s0 d0 c0] by simp
  from add_or_modify_added [OF this st]
  have l1: "?p \<in> fst ` set (owners s1)"
    and c1: "map_of (created_on s1) ?p
      = Some \<lparr>instant = author_time c0, utcoffset = author_offset c0\<rparr>" by simp_all
  from sv have sv1: "survives ?p ds0"
    and sv2: "survives (follow_all ?p ds0) (concat (map snd cs))"
    by (simp_all add: survives_append)
  from process_deltas_follow [OF s2 l1 sv1]
  have l2: "follow_all ?p ds0 \<in> fst ` set (owners (s2\<lparr>first := False\<rparr>))"
    and c2: "map_of (created_on (s2\<lparr>first := False\<rparr>)) (follow_all ?p ds0)
      = map_of (created_on s1) ?p" by simp_all
  from walk_follow [OF s3 l2 sv2]
  have "map_of (created_on s3) (follow_all ?p (ds0 @ concat (map snd cs)))
      = map_of (created_on (s2\<lparr>first := False\<rparr>)) (follow_all ?p ds0)"
    by (simp add: follow_all_append)
  with c2 c1 show "map_of (created_on s3) (follow_all ?p (ds0 @ concat (map snd cs)))
           = Some \<lparr>instant = author_time c0, utcoffset = author_offset c0\<rparr>"
    by simp
  from c1 show "map_of (created_on s1) ?p
           = Some \<lparr>instant = author_time c0, utcoffset = author_offset c0\<rparr>" .
qed

theorem rename_in_first_commit_counterexample:
  "process_delta \<lparr>author_name = ''someone'', author_time = 100, author_offset = 60\<rparr> init_state
       \<lparr>old_file_path = ''a.txt'', new_file_path = ''a.txt'', status = GIT_DELTA_ADDED\<rparr>
     = Inr \<lparr>owners = [(''a.txt'', {''Vijay Ganesh'', ''David L. Dill''})],
            created_on = [(''a.txt'', \<lparr>instant = 100, utcoffset = 60\<rparr>)],
            all_contributors = {''Vijay Ganesh'', ''David L. Dill''},
            last_vijay_date = Some \<lparr>instant = 100, utcoffset = 60\<rparr>, first = True\<rparr>
   \<and> ''a.txt'' \<in> fst ` set [(''a.txt'', {''Vijay Ganesh'', ''David L. Dill''})]
   \<and> ''a.txt'' \<in> fst ` set [(''a.txt'', \<lparr>instant = 100 :: int, utcoffset = 60 :: int\<rparr>)]
   \<and> ''b.txt'' \<notin> fst ` set [(''a.txt'', {''Vijay Ganesh'', ''David L. Dill''})]
   \<and> process_delta \<lparr>author_name = ''someone'', author_time = 100, author_offset = 60\<rparr>
       \<lparr>owners = [(''a.txt'', {''Vijay Ganesh'', ''David L. Dill''})],
        created_on = [(''a.txt'', \<lparr>instant = 100, utcoffset = 60\<rparr>)],
        all_contributors = {''Vijay Ganesh'', ''David L. Dill''},
        last_vijay_date = Some \<lparr>instant = 100, utcoffset = 60\<rparr>, first = True\<rparr>
       \<lparr>old_file_path = ''a.txt'', new_file_path = ''b.txt'', status = GIT_DELTA_RENAMED\<rparr>
     = Inl AssertionError"
  by (simp add: eval_defs)

theorem rename_carries_owners_and_date_witness:
  "process_delta \<lparr>author_name = ''alice'', author_time = 200, author_offset = 0\<rparr>
       \<lparr>owners = [(''c.txt'', {''Vijay Ganesh'', ''David L. Dill''})],
        created_on = [(''c.txt'', \<lparr>instant = 100, utcoffset = 60\<rparr>)],
        all_contributors = {''Vijay Ganesh'', ''David L. Dill''},
        last_vijay_date = Some \<lparr>instant = 100, utcoffset = 60\<rparr>, first = False\<rparr>
       \<lparr>old_file_path = ''c.txt'', new_file_path = ''d.txt'', status = GIT_DELTA_RENAMED\<rparr>
     = Inr \<lparr>owners = [(''d.txt'', {''Vijay Ganesh'', ''David L. Dill''})],
            created_on = [(''d.txt'', \<lparr>instant = 100, utcoffset = 60\<rparr>)],
            all_contributors = {''Vijay Ganesh'', ''David L. Dill''},
            last_vijay_date = Some \<lparr>instant = 100, utcoffset = 60\<rparr>, first = False\<rparr>
   \<and> walk \<lparr>owners = [(''c.txt'', {''Vijay Ganesh'', ''David L. Dill''})],
        created_on = [(''c.txt'', \<lparr>instant = 100, utcoffset = 60\<rparr>)],
        all_contributors = {''Vijay Ganesh'', ''David L. Dill''},
        last_vijay_date = Some \<lparr>instant = 100, utcoffset = 60\<rparr>, first = False\<rparr>
       [(\<lparr>author_name = ''alice'', author_time = 200, author_offset = 0\<rparr>,
         [\<lparr>old_file_path = ''c.txt'', new_file_path = ''d.txt'', status = GIT_DELTA_RENAMED\<rparr>]),
        (\<lparr>author_name = ''bob'', author_time = 300, author_offset = 0\<rparr>,
         [\<lparr>old_file_path = ''d.txt'', new_file_path = ''d.txt'', status = GIT_DELTA_MODIFIED\<rparr>])]
     = Inr \<lparr>owners = [(''d.txt'', {''Vijay Ganesh'', ''David L. Dill'', ''Bob''})],
            created_on = [(''d.txt'', \<lparr>instant = 100, utcoffset = 60\<rparr>)],
            all_contributors = {''Vijay Ganesh'', ''David L. Dill'', ''Bob''},
            last_vijay_date = Some \<lparr>instant = 100, utcoffset = 60\<rparr>, first = False\<rparr>
   \<and> map_of [(''d.txt'', \<lparr>instant = 100 :: int, utcoffset = 60 :: int\<rparr>)] ''d.txt''
     = Some \<lparr>instant = 100, utcoffset = 60\<rparr>"
proof -
  let ?c1 = "\<lparr>author_name = ''someone'', author_time = 100, author_offset = 60\<rparr>"
  let ?c2 = "\<lparr>author_name = ''alice'', author_time = 200, author_offset = 0\<rparr>"
  let ?c3 = "\<lparr>author_name = ''bob'', author_time = 300, author_offset = 0\<rparr>"
  let ?add = "\<lparr>old_file_path = ''c.txt'', new_file_path = ''c.txt'', status = GIT_DELTA_ADDED\<rparr>"
  let ?ren = "\<lparr>old_file_path = ''c.txt'', new_file_path = ''d.txt'', status = GIT_DELTA_RENAMED\<rparr>"
  let ?mod = "\<lparr>old_file_path = ''d.txt'', new_file_path = ''d.txt'', status = GIT_DELTA_MODIFIED\<rparr>"
  let ?vd = "{''Vijay Ganesh'', ''David L. Dill''}"
  let ?t = "\<lparr>instant = 100 :: int, utcoffset = 60 :: int\<rparr>"
  let ?s1t = "\<lparr>owners = [(''c.txt'', ?vd)], created_on = [(''c.txt'', ?t)],
        all_contributors = ?vd, last_vijay_date = Some ?t, first = True\<rparr>"
  let ?s1 = "\<lparr>owners = [(''c.txt'', ?vd)], created_on = [(''c.txt'', ?t)],
        all_contributors = ?vd, last_vijay_date = Some ?t, first = False\<rparr>"
  let ?s2 = "\<lparr>owners = [(''d.txt'', ?vd)], created_on = [(''d.txt'', ?t)],
        all_contributors = ?vd, last_vijay_date = Some ?t, first = False\<rparr>"
  let ?s3 = "\<lparr>owners = [(''d.txt'', {''Vijay Ganesh'', ''David L. Dill'', ''Bob''})],
        created_on = [(''d.txt'', ?t)],
        all_contributors = {''Vijay Ganesh'', ''David L. Dill'', ''Bob''},
        last_vijay_date = Some ?t, first = False\<rparr>"
  let ?cs = "[(?c2, [?ren]), (?c3, [?mod])]"
  note inst = rename_carries_owners_and_date [of ?s1 ?ren ?vd ?t ?c2 ?c1 init_state ?add
      ?s1t "[]" ?s1t ?cs ?s3]
  have h1: "\<not> first ?s1 \<and> status ?ren = GIT_DELTA_RENAMED
      \<and> map_of (owners ?s1) (old_file_path ?ren) = Some ?vd
      \<and> map_of (created_on ?s1) (old_file_path ?ren) = Some ?t
      \<and> new_file_path ?ren \<notin> fst ` set (owners ?s1)"
    by simp
  have a: "process_delta ?c1 init_state ?add = Inr ?s1t" by (simp add: eval_defs)
  have w: "walk ?s1 ?cs = Inr ?s3" by (simp add: eval_defs insert_commute)
  have h2: "process_delta ?c1 init_state ?add = Inr ?s1t \<and> status ?add = GIT_DELTA_ADDED
      \<and> process_deltas ?c1 ?s1t [] = Inr ?s1t \<and> walk (?s1t\<lparr>first := False\<rparr>) ?cs = Inr ?s3
      \<and> survives (new_file_path ?add) ([] @ concat (map snd ?cs))"
    using a w by (simp add: follow_def)
  from mp [OF conjunct1 [OF inst] h1] have "\<exists>s'. process_delta ?c2 ?s1 ?ren = Inr s'"
    apply (elim exE conjE)
    apply (rule exI)
    apply assumption
    done
  then obtain s' where "process_delta ?c2 ?s1 ?ren = Inr s'" ..
  moreover have "process_delta ?c2 ?s1 ?ren = Inr ?s2" by (simp add: eval_defs)
  ultimately have 1: "process_delta ?c2 ?s1 ?ren = Inr ?s2" by simp
  from mp [OF conjunct2 [OF inst] h2]
  have "map_of (created_on ?s3) (follow_all (new_file_path ?add) ([] @ concat (map snd ?cs)))
      = Some \<lparr>instant = author_time ?c1, utcoffset = author_offset ?c1\<rparr>"
    by (rule conjunct2)
  then have 3: "map_of [(''d.txt'', ?t)] ''d.txt'' = Some ?t"
    by (simp add: follow_def)
  from 1 w 3 show ?thesis by (intro conjI)
qed

section \<open>Owners as a union\<close>

lemma foldl_Un: "foldl (\<union>) A xs = A \<union> \<Union> (set xs)"
  by (induction xs arbitrary: A) auto

lemma recorded_union_Some: "recorded_union (Some os) ids = Some (os \<union> \<Union> (set ids))"
  by (simp add: foldl_Un)

lemma recorded_union_Cons:
  "recorded_union x (i # ids)
     = recorded_union (Some ((case x of None \<Rightarrow> {} | Some os \<Rightarrow> os) \<union> i)) ids"
  by (cases x) simp_all

lemma recorded_union_append:
  "recorded_union (recorded_union x xs) ys = recorded_union x (xs @ ys)"
proof (induction xs arbitrary: x)
  case Nil
  then show ?case by (cases x) simp_all
next
  case (Cons i xs)
  show ?case unfolding recorded_union_Cons append_Cons using Cons.IH by simp
qed

lemma add_or_modify_owners:
  assumes "add_or_modify c s d = Inr s'"
  shows "map_of (owners s') q =
     (if new_file_path d = q
      then Some ((case map_of (owners s) q of None \<Rightarrow> {} | Some os \<Rightarrow> os) \<union> contributor_of c s)
      else map_of (owners s) q)"
  using assms unfolding add_or_modify_def Let_def
  by (auto simp: map_of_None_iff [symmetric] update_conv'
      split: if_splits sum.splits option.splits)

lemma process_delta_owners:
  assumes "process_delta c s d = Inr s'"
    and "status d = GIT_DELTA_ADDED \<or> status d = GIT_DELTA_MODIFIED"
  shows "map_of (owners s') q =
     recorded_union (map_of (owners s) q)
       (map (\<lambda>d. contributor_of c s) (filter (\<lambda>d. new_file_path d = q) [d]))"
proof -
  from assms have "add_or_modify c s d = Inr s'"
    using process_delta_add_or_modify [of s d c] by simp
  from add_or_modify_owners [OF this, of q] show ?thesis
    by (cases "map_of (owners s) q") simp_all
qed

lemma contributor_of_first_eq: "first s' = first s \<Longrightarrow> contributor_of c s' = contributor_of c s"
  by (simp add: contributor_of_def)

lemma process_deltas_owners:
  "process_deltas c s ds = Inr s'
     \<Longrightarrow> \<forall>d \<in> set ds. status d = GIT_DELTA_ADDED \<or> status d = GIT_DELTA_MODIFIED
     \<Longrightarrow> map_of (owners s') q =
         recorded_union (map_of (owners s) q)
           (map (\<lambda>d. contributor_of c s) (filter (\<lambda>d. new_file_path d = q) ds))"
proof (induction ds arbitrary: s)
  case Nil
  then show ?case by (cases "map_of (owners s) q") simp_all
next
  case (Cons d ds)
  from Cons.prems(1) obtain s1 where s1: "process_delta c s d = Inr s1"
    and r: "process_deltas c s1 ds = Inr s'"
    by (auto split: sum.splits)
  from Cons.prems(2) have am: "status d = GIT_DELTA_ADDED \<or> status d = GIT_DELTA_MODIFIED"
    and rest: "\<forall>d \<in> set ds. status d = GIT_DELTA_ADDED \<or> status d = GIT_DELTA_MODIFIED"
    by simp_all
  have c: "contributor_of c s1 = contributor_of c s"
    using process_delta_first [OF s1] by (rule contributor_of_first_eq)
  have "map_of (owners s') q =
      recorded_union
        (recorded_union (map_of (owners s) q)
           (map (\<lambda>d. contributor_of c s) (filter (\<lambda>d. new_file_path d = q) [d])))
        (map (\<lambda>d. contributor_of c s) (filter (\<lambda>d. new_file_path d = q) ds))"
    using Cons.IH [OF r rest] unfolding c process_delta_owners [OF s1 am, of q] .
  then show ?case unfolding recorded_union_append by simp
qed

lemma walk_owners:
  "walk s cs = Inr s'
     \<Longrightarrow> \<forall>(c, ds) \<in> set cs. \<forall>d \<in> set ds. status d = GIT_DELTA_ADDED \<or> status d = GIT_DELTA_MODIFIED
     \<Longrightarrow> map_of (owners s') q = recorded_union (map_of (owners s) q) (recorded_for q (first s) cs)"
proof (induction s cs rule: walk.induct)
  case (1 s)
  then show ?case by (cases "map_of (owners s) q") simp_all
next
  case (2 s c ds cs)
  from "2.prems"(1) obtain s1 where s1: "process_deltas c s ds = Inr s1"
    and r: "walk (s1\<lparr>first := False\<rparr>) cs = Inr s'"
    by (auto split: sum.splits)
  from "2.prems"(2) have am: "\<forall>d \<in> set ds. status d = GIT_DELTA_ADDED \<or> status d = GIT_DELTA_MODIFIED"
    and rest: "\<forall>(c, ds) \<in> set cs. \<forall>d \<in> set ds. status d = GIT_DELTA_ADDED \<or> status d = GIT_DELTA_MODIFIED"
    by simp_all
  have "map_of (owners s') q =
      recorded_union (map_of (owners s1) q) (recorded_for q False cs)"
    using "2.IH" [OF s1 r rest] by simp
  then show ?case
    unfolding process_deltas_owners [OF s1 am, of q] recorded_union_append
    by (simp add: contributor_of_def)
qed

text \<open>Modifications of one live file after the first commit.\<close>

lemma modified_succeeds:
  assumes "\<not> first s" and "map_of (owners s) p = Some os" and "status d = GIT_DELTA_MODIFIED"
    and "new_file_path d = p" and "old_file_path d = p" and "commit_time c = Inr t"
  shows "\<exists>s'. process_delta c s d = Inr s' \<and> \<not> first s'
           \<and> map_of (owners s') p = Some (os \<union> transform_name (author_name c))"
proof -
  have pd: "process_delta c s d = add_or_modify c s d"
    using process_delta_add_or_modify [of s d c] assms(3) by simp
  show ?thesis
    unfolding pd using assms
    by (simp add: add_or_modify_def Let_def contributor_of_def update_conv')
qed

lemma modified_succeeded:
  assumes "process_delta c s d = Inr s'" and "status d = GIT_DELTA_MODIFIED"
  shows "\<not> first s \<and> old_file_path d = new_file_path d \<and> (\<exists>t. commit_time c = Inr t)
       \<and> new_file_path d \<in> fst ` set (owners s)"
proof -
  have pd: "process_delta c s d = add_or_modify c s d"
    using process_delta_add_or_modify [of s d c] assms(2) by simp
  have "\<not> first s \<and> old_file_path d = new_file_path d \<and> (\<exists>t. commit_time c = Inr t)
       \<and> map_of (owners s) (new_file_path d) \<noteq> None"
    using assms unfolding pd add_or_modify_def Let_def
    by (auto split: if_splits sum.splits option.splits)
  then show ?thesis by (simp add: map_of_None_iff)
qed

lemma modified_deltas_succeed:
  "\<not> first s \<Longrightarrow> map_of (owners s) p = Some os
     \<Longrightarrow> \<forall>d \<in> set ds. status d = GIT_DELTA_MODIFIED \<and> new_file_path d = p
           \<and> old_file_path d = p \<and> (\<exists>t. commit_time c = Inr t)
     \<Longrightarrow> \<exists>s' os'. process_deltas c s ds = Inr s' \<and> \<not> first s' \<and> map_of (owners s') p = Some os'"
proof (induction ds arbitrary: s os)
  case Nil
  then show ?case by simp
next
  case (Cons d ds)
  from Cons.prems(3) have hd: "status d = GIT_DELTA_MODIFIED \<and> new_file_path d = p
           \<and> old_file_path d = p \<and> (\<exists>t. commit_time c = Inr t)"
    and rest: "\<forall>d \<in> set ds. status d = GIT_DELTA_MODIFIED \<and> new_file_path d = p
           \<and> old_file_path d = p \<and> (\<exists>t. commit_time c = Inr t)"
    by simp_all
  from hd obtain t where t: "commit_time c = Inr t" by (elim conjE exE)
  from hd have d: "status d = GIT_DELTA_MODIFIED" "new_file_path d = p" "old_file_path d = p"
    by blast+
  from modified_succeeds [OF Cons.prems(1,2) d t] obtain s1
    where s1: "process_delta c s d = Inr s1" and nf: "\<not> first s1"
      and l: "map_of (owners s1) p = Some (os \<union> transform_name (author_name c))"
    by (elim exE conjE)
  from Cons.IH [OF nf l rest] obtain s' os' where "process_deltas c s1 ds = Inr s'"
    "\<not> first s'" "map_of (owners s') p = Some os'"
    by (elim exE conjE)
  with s1 show ?case by simp

qed

lemma modified_walk_succeeds:
  "\<not> first s \<Longrightarrow> map_of (owners s) p = Some os
     \<Longrightarrow> \<forall>(c, d) \<in> set (records cs). status d = GIT_DELTA_MODIFIED \<and> new_file_path d = p
           \<and> old_file_path d = p \<and> (\<exists>t. commit_time c = Inr t)
     \<Longrightarrow> \<exists>s'. walk s cs = Inr s'"
proof (induction s cs arbitrary: os rule: walk.induct)
  case (1 s)
  then show ?case by simp
next
  case (2 s c ds cs)
  from "2.prems"(3) have here: "\<forall>d \<in> set ds. status d = GIT_DELTA_MODIFIED \<and> new_file_path d = p
           \<and> old_file_path d = p \<and> (\<exists>t. commit_time c = Inr t)"
    and rest: "\<forall>(c, d) \<in> set (records cs). status d = GIT_DELTA_MODIFIED \<and> new_file_path d = p
           \<and> old_file_path d = p \<and> (\<exists>t. commit_time c = Inr t)"
    by auto
  from modified_deltas_succeed [OF "2.prems"(1,2) here] obtain s1 os1
    where s1: "process_deltas c s ds = Inr s1"
      and l1: "map_of (owners s1) p = Some os1"
    by (elim exE conjE)
  from l1 have l: "map_of (owners (s1\<lparr>first := False\<rparr>)) p = Some os1" by simp
  have nf: "\<not> first (s1\<lparr>first := False\<rparr>)" by simp
  from "2.IH" [OF s1 nf l rest] s1 show ?case by simp
qed

text \<open>A walk that has not failed: every modification in it was well formed.\<close>

lemma process_deltas_modified_ok:
  "process_deltas c s ds = Inr s' \<Longrightarrow> d \<in> set ds \<Longrightarrow> status d = GIT_DELTA_MODIFIED
     \<Longrightarrow> old_file_path d = new_file_path d \<and> (\<exists>t. commit_time c = Inr t)"
proof (induction ds arbitrary: s)
  case Nil
  then show ?case by simp
next
  case (Cons a ds)
  from Cons.prems(1) obtain s1 where s1: "process_delta c s a = Inr s1"
    and r: "process_deltas c s1 ds = Inr s'"
    by (auto split: sum.splits)
  show ?case
  proof (cases "d = a")
    case True
    with modified_succeeded [OF s1] Cons.prems(3) show ?thesis by simp
  next
    case False
    with Cons.prems(2) have "d \<in> set ds" by simp
    from Cons.IH [OF r this Cons.prems(3)] show ?thesis .
  qed
qed

lemma walk_modified_ok:
  "walk s cs = Inr s' \<Longrightarrow> (c, d) \<in> set (records cs) \<Longrightarrow> status d = GIT_DELTA_MODIFIED
     \<Longrightarrow> old_file_path d = new_file_path d \<and> (\<exists>t. commit_time c = Inr t)"
proof (induction s cs rule: walk.induct)
  case (1 s)
  then show ?case by simp
next
  case (2 s c' ds cs)
  from "2.prems"(1) obtain s1 where s1: "process_deltas c' s ds = Inr s1"
    and r: "walk (s1\<lparr>first := False\<rparr>) cs = Inr s'"
    by (auto split: sum.splits)
  from "2.prems"(2) consider "c = c'" "d \<in> set ds" | "(c, d) \<in> set (records cs)" by auto
  then show ?case
  proof cases
    case 1
    from process_deltas_modified_ok [OF s1 1(2) "2.prems"(3)] 1(1) show ?thesis by simp
  next
    case 2
    from "2.IH" [OF s1 r 2 "2.prems"(3)] show ?thesis .
  qed
qed

lemma records_iff: "(c, d) \<in> set (records cs) \<longleftrightarrow> (\<exists>ds. (c, ds) \<in> set cs \<and> d \<in> set ds)"
  by (induction cs rule: records.induct) auto

lemma recorded_for_set:
  "\<forall>(c, d) \<in> set (records cs). new_file_path d = p
     \<Longrightarrow> set (recorded_for p False cs)
       = (\<lambda>r. transform_name (author_name (fst r))) ` set (records cs)"
proof (induction cs rule: records.induct)
  case 1
  then show ?case by simp
next
  case (2 c ds cs)
  from "2.prems" have here: "\<forall>d \<in> set ds. new_file_path d = p"
    and rest: "\<forall>(c, d) \<in> set (records cs). new_file_path d = p" by auto
  from here have "filter (\<lambda>d. new_file_path d = p) ds = ds" by simp
  with "2.IH" [OF rest] show ?case by (auto simp: image_Un image_image)
qed

text \<open>
  C4: after a walk from the start that has not failed and whose deltas are all added or
  modified files, the owners of a path are the union, in the order met, of the contributor
  sets recorded for that path (and the path is not live when nothing was recorded for it).
  And when a file is live after the first commit, two runs of modifications of that file
  that are permutations of each other either both fail or both succeed, and then leave
  the file with the same owners.
\<close>

theorem owners_are_union_of_recorded:
  "(walk init_state cs = Inr s
      \<and> (\<forall>(c, ds) \<in> set cs. \<forall>d \<in> set ds.
            status d = GIT_DELTA_ADDED \<or> status d = GIT_DELTA_MODIFIED)
     \<longrightarrow> map_of (owners s) p = recorded_union None (recorded_for p True cs))
   \<and> (\<not> first s0 \<and> map_of (owners s0) p = Some os
      \<and> (\<forall>(c, d) \<in> set (records cs1). status d = GIT_DELTA_MODIFIED \<and> new_file_path d = p)
      \<and> mset (records cs1) = mset (records cs2)
      \<and> walk s0 cs1 = Inr s1
     \<longrightarrow> (\<exists>s2. walk s0 cs2 = Inr s2 \<and> map_of (owners s2) p = map_of (owners s1) p))"
proof (intro conjI impI; elim conjE)
  assume w: "walk init_state cs = Inr s"
    and am: "\<forall>(c, ds) \<in> set cs. \<forall>d \<in> set ds.
            status d = GIT_DELTA_ADDED \<or> status d = GIT_DELTA_MODIFIED"
  from walk_owners [OF w am, of p]
  show "map_of (owners s) p = recorded_union None (recorded_for p True cs)"
    by (simp add: init_state_def)
next
  assume nf: "\<not> first s0" and os: "map_of (owners s0) p = Some os"
    and m1: "\<forall>(c, d) \<in> set (records cs1). status d = GIT_DELTA_MODIFIED \<and> new_file_path d = p"
    and perm: "mset (records cs1) = mset (records cs2)"
    and w1: "walk s0 cs1 = Inr s1"
  from perm have se: "set (records cs2) = set (records cs1)" by (metis mset_eq_setD)
  with m1 have m2: "\<forall>(c, d) \<in> set (records cs2). status d = GIT_DELTA_MODIFIED \<and> new_file_path d = p"
    by simp
  have ok: "\<forall>(c, d) \<in> set (records cs2). status d = GIT_DELTA_MODIFIED \<and> new_file_path d = p
           \<and> old_file_path d = p \<and> (\<exists>t. commit_time c = Inr t)"
  proof (intro ballI, clarify)
    fix c d assume "(c, d) \<in> set (records cs2)"
    with se have in1: "(c, d) \<in> set (records cs1)" by simp
    with m1 have md: "status d = GIT_DELTA_MODIFIED" and np: "new_file_path d = p" by auto
    from walk_modified_ok [OF w1 in1 md] np md
    show "status d = GIT_DELTA_MODIFIED \<and> new_file_path d = p
           \<and> old_file_path d = p \<and> (\<exists>t. commit_time c = Inr t)" by simp
  qed
  from modified_walk_succeeds [OF nf os ok] obtain s2 where w2: "walk s0 cs2 = Inr s2" ..
  have am: "\<forall>(c, ds) \<in> set cs. \<forall>d \<in> set ds.
            status d = GIT_DELTA_ADDED \<or> status d = GIT_DELTA_MODIFIED"
    if "\<forall>(c, d) \<in> set (records cs). status d = GIT_DELTA_MODIFIED \<and> new_file_path d = p"
    for cs
  proof (intro ballI, clarify)
    fix c ds d assume "(c, ds) \<in> set cs" and "d \<in> set ds"
    then have "(c, d) \<in> set (records cs)" unfolding records_iff by blast
    with that have "status d = GIT_DELTA_MODIFIED" by auto
    moreover assume "status d \<noteq> GIT_DELTA_MODIFIED"
    ultimately show "status d = GIT_DELTA_ADDED" by simp
  qed
  have np: "\<forall>(c, d) \<in> set (records cs). new_file_path d = p"
    if "\<forall>(c, d) \<in> set (records cs). status d = GIT_DELTA_MODIFIED \<and> new_file_path d = p"
    for cs
    using that by auto
  have o1: "map_of (owners s1) p
      = Some (os \<union> \<Union> ((\<lambda>r. transform_name (author_name (fst r))) ` set (records cs1)))"
    using walk_owners [OF w1 am [OF m1], of p] nf os recorded_for_set [OF np [OF m1]]
    by (simp add: foldl_Un)
  have o2: "map_of (owners s2) p
      = Some (os \<union> \<Union> ((\<lambda>r. transform_name (author_name (fst r))) ` set (records cs2)))"
    using walk_owners [OF w2 am [OF m2], of p] nf os recorded_for_set [OF np [OF m2]]
    by (simp add: foldl_Un)
  from o1 o2 se have "map_of (owners s2) p = map_of (owners s1) p" by simp
  with w2 show "\<exists>s2. walk s0 cs2 = Inr s2 \<and> map_of (owners s2) p = map_of (owners s1) p"
    by blast
qed

end
